theory Spec2Isabelle
  imports Complex_Main "HOL-Library.Sublist" "HOL-Library.Log_Nat"
begin

section \<open>Data model of the incident runbook\<close>

text \<open>
  The component \<^verbatim>\<open>IncidentRescueRunbook.tsx\<close> keeps a fixed catalog \<^verbatim>\<open>STEPS\<close> of
  step definitions, one \<^verbatim>\<open>StepState\<close> per step, a search string and the index of the
  step that is currently shown. The catalog is a parameter of every definition below,
  so each result holds for the shipped catalog of 25 steps and for any other one.

  Strings are lists of 8-bit characters, read as the UTF-16 code units below 256
  (Latin-1); the shipped catalog is plain ASCII.
\<close>

datatype category =
  Preparation | Triage | Containment | Forensics | Eradication | Recovery | Hardening
  | Post_Incident

fun category_name :: "category \<Rightarrow> string" where
  "category_name Preparation = ''Preparation''"
| "category_name Triage = ''Triage''"
| "category_name Containment = ''Containment''"
| "category_name Forensics = ''Forensics''"
| "category_name Eradication = ''Eradication''"
| "category_name Recovery = ''Recovery''"
| "category_name Hardening = ''Hardening''"
| "category_name Post_Incident = ''Post-Incident''"

record CommandBlock =
  label :: "string option"
  cmd :: string

text \<open>
  \<^verbatim>\<open>interface StepItem\<close>. The field \<^verbatim>\<open>id\<close> is \<open>step_id\<close> here, and \<^verbatim>\<open>id\<close> of a
  \<^verbatim>\<open>StepState\<close> is \<open>state_id\<close>, since one name cannot be a field of two records
  (and \<open>id\<close> is the identity function of HOL).
\<close>

record StepItem =
  step_id :: string
  title :: string
  category :: category
  critical :: "bool option"
  details :: string
  commands :: "CommandBlock list option"
  links :: "(string \<times> string) list option"

datatype status = Todo | Done | Skipped

record StepState =
  state_id :: string
  status :: status
  doneAt :: "string option"

datatype severity = SEV_1 | SEV_2 | SEV_3 | SEV_4 | TBD

record IncidentMeta =
  name :: string
  severity :: severity
  accountId :: string
  region :: string
  commander :: string
  scribe :: string

text \<open>
  The React state of the component (\<^verbatim>\<open>useState\<close>): the search text, the metadata,
  the status list and the cursor. \<^verbatim>\<open>currentIndex\<close> is a JavaScript number; it is an
  \<open>int\<close> here because \<^verbatim>\<open>Math.min(STEPS.length - 1, currentIndex + 1)\<close> is \<open>-1\<close> on an
  empty catalog.
\<close>

record app_state =
  search :: string
  meta :: IncidentMeta
  states :: "StepState list"
  currentIndex :: int

datatype error = TypeError | SyntaxError | SecurityError

section \<open>Array primitives\<close>

text \<open>\<^verbatim>\<open>xs[i]\<close>: \<^verbatim>\<open>undefined\<close> (here \<open>None\<close>) outside the array.\<close>

definition at_index :: "'a list \<Rightarrow> int \<Rightarrow> 'a option" where
  "at_index xs i = (if 0 \<le> i \<and> i < int (length xs) then Some (xs ! nat i) else None)"

text \<open>
  \<^verbatim>\<open>xs.findIndex((x, i) => p(x, i))\<close>: the first index whose element satisfies the
  predicate, \<open>-1\<close> when there is none. \<open>findIndex_from\<close> carries the index of the head.
\<close>

fun findIndex_from :: "('a \<Rightarrow> int \<Rightarrow> bool) \<Rightarrow> int \<Rightarrow> 'a list \<Rightarrow> int" where
  "findIndex_from p i [] = -1"
| "findIndex_from p i (x # xs) = (if p x i then i else findIndex_from p (i + 1) xs)"

definition findIndex :: "('a \<Rightarrow> int \<Rightarrow> bool) \<Rightarrow> 'a list \<Rightarrow> int" where
  "findIndex p xs = findIndex_from p 0 xs"

section \<open>Status store\<close>

text \<open>The object literal \<^verbatim>\<open>{ id, status: "todo" }\<close>: pending, no \<^verbatim>\<open>doneAt\<close>.\<close>

definition todo_state :: "string \<Rightarrow> StepState" where
  "todo_state i = \<lparr>state_id = i, status = Todo, doneAt = None\<rparr>"

text \<open>
  \<^verbatim>\<open>new Map(entries)\<close> inserts the entries from left to right, so the last entry of a
  key is the one that \<^verbatim>\<open>get\<close> returns.
\<close>

definition Map_new :: "('k \<times> 'v) list \<Rightarrow> ('k \<rightharpoonup> 'v)" where
  "Map_new entries = foldl (\<lambda>m (k, v). m(k \<mapsto> v)) Map.empty entries"

text \<open>
  The body of the \<^verbatim>\<open>try\<close> block of \<^verbatim>\<open>loadState\<close>. The two library calls are
  parameters: \<open>getItem\<close> is the outcome of \<^verbatim>\<open>localStorage.getItem(STORAGE_KEY)\<close> (an
  exception, \<^verbatim>\<open>null\<close> or the stored text) and \<open>JSON_parse\<close> is \<^verbatim>\<open>JSON.parse\<close>, whose
  result the source takes as a \<^verbatim>\<open>StepState[]\<close> (\<^verbatim>\<open>const parsed: StepState[]\<close>); an
  exception raised while parsing or while reading the parsed value is its \<open>Inl\<close>.
\<close>

definition loadState_try ::
  "(string \<Rightarrow> error + StepState list) \<Rightarrow> error + string option \<Rightarrow> string list
    \<Rightarrow> error + StepState list" where
  "loadState_try JSON_parse getItem stepIds =
     (case getItem of
        Inl e \<Rightarrow> Inl e
      | Inr raw \<Rightarrow>
          (case raw of
             None \<Rightarrow> Inr (map todo_state stepIds)
           | Some r \<Rightarrow>
               if r = [] then Inr (map todo_state stepIds)
               else
                 (case JSON_parse r of
                    Inl e \<Rightarrow> Inl e
                  | Inr parsed \<Rightarrow>
                      let mapped = Map_new (map (\<lambda>s. (state_id s, s)) parsed)
                      in Inr (map (\<lambda>i. case mapped i of Some s \<Rightarrow> s | None \<Rightarrow> todo_state i)
                                stepIds))))"

text \<open>\<^verbatim>\<open>loadState\<close>: the \<^verbatim>\<open>catch\<close> clause turns every exception into the default.\<close>

definition loadState ::
  "(string \<Rightarrow> error + StepState list) \<Rightarrow> error + string option \<Rightarrow> string list
    \<Rightarrow> StepState list" where
  "loadState JSON_parse getItem stepIds =
     (case loadState_try JSON_parse getItem stepIds of
        Inl e \<Rightarrow> map todo_state stepIds
      | Inr r \<Rightarrow> r)"

text \<open>
  \<^verbatim>\<open>setStatus\<close>, as the new value of \<^verbatim>\<open>states\<close>; \<open>now\<close> is what \<^verbatim>\<open>nowIso()\<close> returns
  at the call.
\<close>

definition setStatus :: "string \<Rightarrow> string \<Rightarrow> status \<Rightarrow> StepState list \<Rightarrow> StepState list" where
  "setStatus now i st prev =
     map (\<lambda>s. if state_id s = i
               then s\<lparr>status := st, doneAt := (if st = Done then Some now else None)\<rparr>
               else s) prev"

text \<open>
  The invariant of a status record in the data model: \<open>doneAt\<close> is present exactly
  when the status is \<open>Done\<close>.
\<close>

definition stamped :: "StepState \<Rightarrow> bool" where
  "stamped s = ((doneAt s \<noteq> None) = (status s = Done))"

section \<open>String primitives\<close>

text \<open>
  \<^verbatim>\<open>String.prototype.trim\<close> removes white space and line terminators from both ends;
  below 256 these are TAB, LF, VT, FF, CR, SPACE and NO-BREAK SPACE.
\<close>

definition isWhiteSpace :: "char \<Rightarrow> bool" where
  "isWhiteSpace c = ((of_char c :: nat) \<in> {9, 10, 11, 12, 13, 32, 160})"

definition trim :: "string \<Rightarrow> string" where
  "trim s = rev (dropWhile isWhiteSpace (rev (dropWhile isWhiteSpace s)))"

text \<open>
  \<^verbatim>\<open>String.prototype.toLowerCase\<close> on code units below 256: the letters A to Z and the
  Latin-1 capitals U+00C0 to U+00DE (without the multiplication sign U+00D7) move up
  by 32, every other code unit stays.
\<close>

definition toLowerCase_char :: "char \<Rightarrow> char" where
  "toLowerCase_char c =
     (let n = (of_char c :: nat)
      in if (65 \<le> n \<and> n \<le> 90) \<or> (192 \<le> n \<and> n \<le> 222 \<and> n \<noteq> 215)
         then char_of (n + 32) else c)"

definition toLowerCase :: "string \<Rightarrow> string" where
  "toLowerCase s = map toLowerCase_char s"

text \<open>\<^verbatim>\<open>s.includes(q)\<close>: \<open>q\<close> occurs in \<open>s\<close> as a contiguous run.\<close>

fun js_includes :: "string \<Rightarrow> string \<Rightarrow> bool" where
  "js_includes [] q = (q = [])"
| "js_includes (c # cs) q = (prefix q (c # cs) \<or> js_includes cs q)"

section \<open>Numbers\<close>

text \<open>
  A JavaScript number is an IEEE 754 binary64 value. \<open>fl\<close> rounds a rational to the
  nearest binary64 value, ties to the even significand: \<open>binade x\<close> is the exponent
  \<open>e\<close> with \<open>2\<^sup>e \<le> x < 2\<^sup>e\<^sup>+\<^sup>1\<close>, and the significand has 53 bits. It is the rounding
  of the normal range (magnitudes from \<open>2\<^sup>-\<^sup>1\<^sup>0\<^sup>2\<^sup>2\<close> to below \<open>2\<^sup>1\<^sup>0\<^sup>2\<^sup>4\<close>); the numbers
  of this program are quotients of two array lengths and their products with 100.
\<close>

datatype number = NaN | Infinity | Finite rat

definition rne :: "rat \<Rightarrow> int" where
  "rne m = (let f = \<lfloor>m\<rfloor>; d = m - of_int f
            in if d < 1 / 2 then f else if 1 / 2 < d then f + 1
               else if even f then f else f + 1)"

definition binade :: "rat \<Rightarrow> int" where
  "binade x = (let (p, q) = quotient_of x; k = bitlen p - bitlen q
               in if x < 2 powi k then k - 1 else k)"

definition fl :: "rat \<Rightarrow> rat" where
  "fl x = (if x = 0 then 0
           else let e = binade \<bar>x\<bar>
                in sgn x * of_int (rne (\<bar>x\<bar> * 2 powi (52 - e))) * 2 powi (e - 52))"

text \<open>\<^verbatim>\<open>a / b\<close> for two array lengths: \<^verbatim>\<open>0 / 0\<close> is \<^verbatim>\<open>NaN\<close>.\<close>

definition js_divide :: "nat \<Rightarrow> nat \<Rightarrow> number" where
  "js_divide a b =
     (if b = 0 then (if a = 0 then NaN else Infinity)
      else Finite (fl (of_nat a / of_nat b)))"

text \<open>\<^verbatim>\<open>x * k\<close> for a positive constant \<open>k\<close>.\<close>

fun js_times :: "number \<Rightarrow> rat \<Rightarrow> number" where
  "js_times NaN k = NaN"
| "js_times Infinity k = Infinity"
| "js_times (Finite x) k = Finite (fl (x * k))"

text \<open>
  \<^verbatim>\<open>Math.round\<close>: the nearest integer, the larger one at a tie; \<^verbatim>\<open>NaN\<close> stays
  \<^verbatim>\<open>NaN\<close>.
\<close>

fun Math_round :: "number \<Rightarrow> number" where
  "Math_round NaN = NaN"
| "Math_round Infinity = Infinity"
| "Math_round (Finite x) = Finite (of_int \<lfloor>x + 1 / 2\<rfloor>)"

section \<open>Derived values of a render\<close>

text \<open>\<^verbatim>\<open>progress\<close>: \<^verbatim>\<open>Math.round((done / states.length) * 100)\<close>.\<close>

definition progress :: "StepState list \<Rightarrow> number" where
  "progress sts =
     (let done = length (filter (\<lambda>s. status s = Done) sts)
      in Math_round (js_times (js_divide done (length sts)) 100))"

text \<open>\<^verbatim>\<open>STEPS.map((s, i) => ({ ...s, idx: i }))\<close>: every step with its catalog index.\<close>

definition with_idx :: "StepItem list \<Rightarrow> (StepItem \<times> int) list" where
  "with_idx STEPS = zip STEPS (map int [0..<length STEPS])"

definition filtered :: "StepItem list \<Rightarrow> string \<Rightarrow> (StepItem \<times> int) list" where
  "filtered STEPS srch =
     (let q = toLowerCase (trim srch)
      in if q = [] then with_idx STEPS
         else filter (\<lambda>(s, i).
                js_includes (toLowerCase (title s)) q
                \<or> js_includes (toLowerCase (details s)) q
                \<or> js_includes (toLowerCase (category_name (category s))) q)
              (with_idx STEPS))"

text \<open>\<^verbatim>\<open>const current = STEPS[currentIndex]\<close>, the step that the main card renders.\<close>

definition current :: "StepItem list \<Rightarrow> app_state \<Rightarrow> StepItem option" where
  "current STEPS st = at_index STEPS (currentIndex st)"

text \<open>
  The sidebar shows the button of a step when
  \<^verbatim>\<open>filtered.some((f) => f.id === s.id)\<close>.
\<close>

definition visible :: "(StepItem \<times> int) list \<Rightarrow> StepItem \<Rightarrow> bool" where
  "visible flt s = (\<exists>f \<in> set flt. step_id (fst f) = step_id s)"

section \<open>Effects and event handlers\<close>

text \<open>
  The effect with the dependencies \<^verbatim>\<open>[filtered, currentIndex]\<close>: when the step under
  the cursor is not in the filtered list and the list is not empty, the cursor moves
  to the first filtered step.
\<close>

definition reconcile :: "StepItem list \<Rightarrow> app_state \<Rightarrow> app_state" where
  "reconcile STEPS st =
     (let flt = filtered STEPS (search st);
          currentId = map_option step_id (at_index STEPS (currentIndex st));
          newIndex = findIndex (\<lambda>s i. Some (step_id (fst s)) = currentId) flt
      in if newIndex \<ge> 0 then st
         else if length flt > 0 then st\<lparr>currentIndex := snd (hd flt)\<rparr>
         else st)"

text \<open>
  The checkbox reports \<^verbatim>\<open>boolean | string\<close>; \<^verbatim>\<open>Boolean(checked)\<close> is false for
  \<^verbatim>\<open>false\<close> and for the empty string only.
\<close>

datatype checked = CBool bool | CString string

fun Boolean :: "checked \<Rightarrow> bool" where
  "Boolean (CBool b) = b"
| "Boolean (CString s) = (s \<noteq> [])"

text \<open>
  An event handler runs on the state of the render that installed it, and React
  applies its updates together: \<^verbatim>\<open>setStates\<close> through \<open>setStatus\<close>, and
  \<^verbatim>\<open>setCurrentIndex\<close> with an index computed from the \<^verbatim>\<open>states\<close> and
  \<^verbatim>\<open>currentIndex\<close> of that render. \<^verbatim>\<open>current.id\<close> throws a \<^verbatim>\<open>TypeError\<close> when
  \<^verbatim>\<open>current\<close> is \<^verbatim>\<open>undefined\<close>.
\<close>

definition onMarkDone ::
  "StepItem list \<Rightarrow> string \<Rightarrow> checked \<Rightarrow> app_state \<Rightarrow> error + app_state" where
  "onMarkDone STEPS now chk st =
     (case current STEPS st of
        None \<Rightarrow> Inl TypeError
      | Some cur \<Rightarrow>
          let isChecked = Boolean chk;
              st' = st\<lparr>states :=
                      setStatus now (step_id cur) (if isChecked then Done else Todo) (states st)\<rparr>
          in if isChecked
             then
               let nextIdx =
                     findIndex (\<lambda>_ i. i > currentIndex st
                         \<and> map_option status (at_index (states st) i) \<noteq> Some Done) STEPS
               in Inr (if nextIdx > -1 then st'\<lparr>currentIndex := nextIdx\<rparr> else st')
             else Inr st')"

definition onSkip :: "StepItem list \<Rightarrow> string \<Rightarrow> app_state \<Rightarrow> error + app_state" where
  "onSkip STEPS now st =
     (case current STEPS st of
        None \<Rightarrow> Inl TypeError
      | Some cur \<Rightarrow>
          let nextIdx = min (int (length STEPS) - 1) (currentIndex st + 1)
          in Inr (st\<lparr>states := setStatus now (step_id cur) Skipped (states st),
                     currentIndex := nextIdx\<rparr>))"

definition resetAll :: "StepItem list \<Rightarrow> app_state \<Rightarrow> app_state" where
  "resetAll STEPS st =
     st\<lparr>states := map (\<lambda>s. \<lparr>state_id = step_id s, status = Todo, doneAt = None\<rparr>) STEPS,
        currentIndex := 0\<rparr>"

text \<open>
  The object that \<^verbatim>\<open>exportAudit\<close> builds and hands to the download; \<^verbatim>\<open>null\<close> is
  \<open>None\<close>.
\<close>

record AuditStep =
  audit_id :: string
  audit_title :: string
  audit_category :: category
  audit_status :: status
  audit_doneAt :: "string option"

record Audit =
  audit_meta :: IncidentMeta
  generatedAt :: string
  steps :: "AuditStep list"

definition exportAudit :: "StepItem list \<Rightarrow> string \<Rightarrow> app_state \<Rightarrow> Audit" where
  "exportAudit STEPS now st =
     \<lparr>audit_meta = meta st,
      generatedAt = now,
      steps = map (\<lambda>s.
        \<lparr>audit_id = step_id s,
         audit_title = title s,
         audit_category = category s,
         audit_status =
           (case find (\<lambda>x. state_id x = step_id s) (states st) of
              Some x \<Rightarrow> status x | None \<Rightarrow> Todo),
         audit_doneAt =
           (case find (\<lambda>x. state_id x = step_id s) (states st) of
              Some x \<Rightarrow> doneAt x | None \<Rightarrow> None)\<rparr>) STEPS\<rparr>"

section \<open>Sessions\<close>

text \<open>The initial values of the \<^verbatim>\<open>useState\<close> hooks.\<close>

definition default_meta :: IncidentMeta where
  "default_meta =
     \<lparr>name = ''Untitled Incident'', severity = TBD, accountId = [], region = [],
      commander = [], scribe = []\<rparr>"

definition init ::
  "(string \<Rightarrow> error + StepState list) \<Rightarrow> error + string option \<Rightarrow> StepItem list
    \<Rightarrow> app_state" where
  "init JSON_parse getItem STEPS =
     \<lparr>search = [],
      meta = default_meta,
      states = loadState JSON_parse getItem (map step_id STEPS),
      currentIndex = 0\<rparr>"

text \<open>
  The user intents of the page: the checkbox, the Skip, Back and Next buttons, Reset,
  the search box and a click on a sidebar button (which exists for the visible steps
  only). \<open>SetStatus\<close> is the bare status update, which the page reaches through the
  checkbox and Skip. The string of an event is the reading of the clock.
\<close>

datatype event =
  MarkDone checked string
  | Skip string
  | Reset
  | Back
  | Next
  | SetSearch string
  | Select int
  | SetStatus string status string

fun handle :: "StepItem list \<Rightarrow> event \<Rightarrow> app_state \<Rightarrow> error + app_state" where
  "handle STEPS (MarkDone chk now) st = onMarkDone STEPS now chk st"
| "handle STEPS (Skip now) st = onSkip STEPS now st"
| "handle STEPS Reset st = Inr (resetAll STEPS st)"
| "handle STEPS Back st = Inr (st\<lparr>currentIndex := max 0 (currentIndex st - 1)\<rparr>)"
| "handle STEPS Next st =
     Inr (st\<lparr>currentIndex := min (int (length STEPS) - 1) (currentIndex st + 1)\<rparr>)"
| "handle STEPS (SetSearch q) st = Inr (st\<lparr>search := q\<rparr>)"
| "handle STEPS (Select i) st =
     (case at_index STEPS i of
        None \<Rightarrow> Inr st
      | Some s \<Rightarrow>
          if visible (filtered STEPS (search st)) s then Inr (st\<lparr>currentIndex := i\<rparr>)
          else Inr st)"
| "handle STEPS (SetStatus i s now) st = Inr (st\<lparr>states := setStatus now i s (states st)\<rparr>)"

text \<open>One event: the handler, then the effect on the new state.\<close>

definition dispatch :: "StepItem list \<Rightarrow> event \<Rightarrow> app_state \<Rightarrow> error + app_state" where
  "dispatch STEPS ev st =
     (case handle STEPS ev st of Inl e \<Rightarrow> Inl e | Inr st' \<Rightarrow> Inr (reconcile STEPS st'))"

fun run :: "StepItem list \<Rightarrow> event list \<Rightarrow> app_state \<Rightarrow> error + app_state" where
  "run STEPS [] st = Inr st"
| "run STEPS (ev # evs) st =
     (case dispatch STEPS ev st of Inl e \<Rightarrow> Inl e | Inr st' \<Rightarrow> run STEPS evs st')"

section \<open>An excerpt of the catalog\<close>

text \<open>
  Three entries of \<^verbatim>\<open>STEPS\<close> (the first, the third and the last but one), as a small
  catalog for concrete instances.
\<close>

definition declare_incident :: StepItem where
  "declare_incident =
     \<lparr>step_id = ''declare-incident'',
      title = ''Declare Incident, Assign Roles, Open War Room'',
      category = Preparation,
      critical = Some True,
      details = ''Confirm incident scope and declare severity. Assign Incident Commander (IC), Scribe, Communications Lead. Open a dedicated chat/video bridge. Start timeline.'',
      commands = Some [\<lparr>label = Some ''Create Slack channel (example)'',
                         cmd = ''# incident-sev1-<short-id>''\<rparr>],
      links = None\<rparr>"

definition change_freeze :: StepItem where
  "change_freeze =
     \<lparr>step_id = ''change-freeze'',
      title = ''Change Freeze & Stakeholder Notifications'',
      category = Preparation,
      critical = None,
      details = ''Announce temporary change freeze for impacted accounts/regions except emergency containment. Notify legal, security, exec sponsors as required by policy.'',
      commands = None,
      links = None\<rparr>"

definition reporting :: StepItem where
  "reporting =
     \<lparr>step_id = ''reporting'',
      title = ''Post-Incident Report, Lessons Learned, Playbook Updates'',
      category = Post_Incident,
      critical = None,
      details = ''Within agreed SLA, publish a blameless PIR: root cause (if known), impact, timeline, controls added, detection gaps, and action items with owners/dates.'',
      commands = None,
      links = None\<rparr>"

definition excerpt :: "StepItem list" where
  "excerpt = [declare_incident, change_freeze, reporting]"

section \<open>Loading\<close>

lemma Map_new_snoc:
  "Map_new (es @ [(k, v)]) = (Map_new es)(k \<mapsto> v)"
  by (simp add: Map_new_def)

lemma Map_new_state_id:
  "Map_new (map (\<lambda>s. (state_id s, s)) parsed) i = Some s \<Longrightarrow> state_id s = i \<and> s \<in> set parsed"
  by (induction parsed rule: rev_induct) (auto simp: Map_new_snoc Map_new_def split: if_splits)

lemma Map_new_None:
  "(Map_new (map (\<lambda>s. (state_id s, s)) parsed) i = None) = (i \<notin> state_id ` set parsed)"
  by (induction parsed rule: rev_induct) (auto simp: Map_new_snoc Map_new_def)

lemma state_id_todo_state [simp]: "state_id (todo_state i) = i"
  by (simp add: todo_state_def)

lemma state_id_mapped:
  "state_id (case Map_new (map (\<lambda>s. (state_id s, s)) parsed) i of
               None \<Rightarrow> todo_state i | Some s \<Rightarrow> s) = i"
  by (auto split: option.splits dest: Map_new_state_id)

lemma loadState_try_ids:
  assumes "loadState_try P G ids = Inr r"
  shows "map state_id r = ids"
  using assms
  by (auto simp: loadState_try_def Let_def comp_def state_id_mapped
      split: sum.splits option.splits if_splits)

lemma loadState_ids: "map state_id (loadState P G ids) = ids"
  by (auto simp: loadState_def comp_def loadState_try_ids split: sum.splits)

lemma Map_new_find:
  "Map_new (map (\<lambda>s. (state_id s, s)) parsed) i = find (\<lambda>s. state_id s = i) (rev parsed)"
  by (induction parsed rule: rev_induct) (simp_all add: Map_new_snoc Map_new_def)

lemma find_rev_None:
  "i \<notin> state_id ` set parsed \<Longrightarrow> find (\<lambda>s. state_id s = i) (rev parsed) = None"
  by (auto simp: find_None_iff image_iff)

lemma loadState_fallback:
  assumes "(\<exists>e. G = Inl e) \<or> G = Inr None \<or> G = Inr (Some [])
           \<or> (\<exists>raw e. G = Inr (Some raw) \<and> P raw = Inl e)"
  shows "loadState P G ids = map todo_state ids"
  using assms
  by (auto simp: loadState_def loadState_try_def split: sum.splits option.splits)

lemma loadState_parsed:
  assumes "G = Inr (Some raw)" "raw \<noteq> []" "P raw = Inr parsed"
  shows "loadState P G ids =
         map (\<lambda>i. case find (\<lambda>s. state_id s = i) (rev parsed) of
                     None \<Rightarrow> todo_state i | Some s \<Rightarrow> s) ids"
  using assms by (simp add: loadState_def loadState_try_def Map_new_find)

text \<open>
  C2. \<open>loadState\<close> returns one record per catalog identity, in catalog order, whatever
  the storage holds: the identities of the result are exactly those of the catalog.
  When the stored text parses, the record of an identity is the (last) persisted
  record of that identity, or a pending record without \<open>doneAt\<close> when there is none,
  and persisted records of other identities do not appear. When reading throws, the
  item is absent or empty, or parsing throws, every record is the pending one.
  \<open>loadState\<close> is a total function: it has no error result.
\<close>

theorem loadState_reconciles:
  "map state_id (loadState P G ids) = ids
   \<and> set (map state_id (loadState P G ids)) = set ids
   \<and> (\<forall>s \<in> set (loadState P G ids). state_id s \<in> set ids)
   \<and> (\<forall>raw parsed k.
         G = Inr (Some raw) \<and> raw \<noteq> [] \<and> P raw = Inr parsed \<and> k < length ids \<longrightarrow>
         loadState P G ids ! k =
           (case find (\<lambda>s. state_id s = ids ! k) (rev parsed) of
              None \<Rightarrow> todo_state (ids ! k)
            | Some s \<Rightarrow> s)
         \<and> (ids ! k \<notin> state_id ` set parsed \<longrightarrow>
              loadState P G ids ! k = \<lparr>state_id = ids ! k, status = Todo, doneAt = None\<rparr>))
   \<and> ((\<exists>e. G = Inl e) \<or> G = Inr None \<or> G = Inr (Some [])
        \<or> (\<exists>raw e. G = Inr (Some raw) \<and> P raw = Inl e) \<longrightarrow>
       loadState P G ids =
         map (\<lambda>i. \<lparr>state_id = i, status = Todo, doneAt = None\<rparr>) ids)"
proof (intro conjI allI impI ballI)
  show ids: "map state_id (loadState P G ids) = ids"
    by (rule loadState_ids)
  then show "set (map state_id (loadState P G ids)) = set ids"
    by simp
  fix s assume "s \<in> set (loadState P G ids)"
  then have "state_id s \<in> set (map state_id (loadState P G ids))"
    by simp
  then show "state_id s \<in> set ids"
    by (simp only: ids)
next
  fix raw parsed k
  assume h: "G = Inr (Some raw) \<and> raw \<noteq> [] \<and> P raw = Inr parsed \<and> k < length ids"
  then show at_k: "loadState P G ids ! k =
      (case find (\<lambda>s. state_id s = ids ! k) (rev parsed) of
         None \<Rightarrow> todo_state (ids ! k) | Some s \<Rightarrow> s)"
    by (simp add: loadState_parsed)
  assume "ids ! k \<notin> state_id ` set parsed"
  then have "find (\<lambda>s. state_id s = ids ! k) (rev parsed) = None"
    by (rule find_rev_None)
  then show "loadState P G ids ! k = \<lparr>state_id = ids ! k, status = Todo, doneAt = None\<rparr>"
    by (simp add: at_k todo_state_def)
next
  assume "(\<exists>e. G = Inl e) \<or> G = Inr None \<or> G = Inr (Some [])
          \<or> (\<exists>raw e. G = Inr (Some raw) \<and> P raw = Inl e)"
  then have "loadState P G ids = map todo_state ids"
    by (rule loadState_fallback)
  then show "loadState P G ids = map (\<lambda>i. \<lparr>state_id = i, status = Todo, doneAt = None\<rparr>) ids"
    by (simp add: todo_state_def)
qed

text \<open>
  A catalog \<open>a, b\<close> against a stored list with a completed \<open>b\<close> and a stale \<open>z\<close>, and
  against a text that does not parse.
\<close>

theorem loadState_reconciles_witness:
  "map state_id (loadState (\<lambda>_. Inr [\<lparr>state_id = ''b'', status = Done, doneAt = Some ''t''\<rparr>,
                        \<lparr>state_id = ''z'', status = Skipped, doneAt = None\<rparr>])
     (Inr (Some ''[..]'')) [''a'', ''b'']) = [''a'', ''b'']
   \<and> loadState (\<lambda>_. Inr [\<lparr>state_id = ''b'', status = Done, doneAt = Some ''t''\<rparr>,
                        \<lparr>state_id = ''z'', status = Skipped, doneAt = None\<rparr>])
     (Inr (Some ''[..]'')) [''a'', ''b''] ! 0 = \<lparr>state_id = ''a'', status = Todo, doneAt = None\<rparr>
   \<and> loadState (\<lambda>_. Inr [\<lparr>state_id = ''b'', status = Done, doneAt = Some ''t''\<rparr>,
                        \<lparr>state_id = ''z'', status = Skipped, doneAt = None\<rparr>])
     (Inr (Some ''[..]'')) [''a'', ''b''] ! 1 = \<lparr>state_id = ''b'', status = Done, doneAt = Some ''t''\<rparr>
   \<and> loadState (\<lambda>_. Inl SyntaxError) (Inr (Some ''{'')) [''a'', ''b'']
     = [\<lparr>state_id = ''a'', status = Todo, doneAt = None\<rparr>,
        \<lparr>state_id = ''b'', status = Todo, doneAt = None\<rparr>]"
proof -
  let ?parsed = "[\<lparr>state_id = ''b'', status = Done, doneAt = Some ''t''\<rparr>,
                  \<lparr>state_id = ''z'', status = Skipped, doneAt = None\<rparr>]"
  let ?P = "\<lambda>_::string. (Inr ?parsed :: error + StepState list)"
  let ?G = "Inr (Some ''[..]'') :: error + string option"
  let ?ids = "[''a'', ''b'']"
  note t = loadState_reconciles [of ?P ?G ?ids]
  note at = t [THEN conjunct2, THEN conjunct2, THEN conjunct2, THEN conjunct1, rule_format]
  have k0: "loadState ?P ?G ?ids ! 0 = \<lparr>state_id = ''a'', status = Todo, doneAt = None\<rparr>"
    using at [of "''[..]''" ?parsed 0] by (simp add: todo_state_def)
  have k1: "loadState ?P ?G ?ids ! 1 = \<lparr>state_id = ''b'', status = Done, doneAt = Some ''t''\<rparr>"
    using at [of "''[..]''" ?parsed 1] by (simp add: todo_state_def)
  have bad: "loadState (\<lambda>_. Inl SyntaxError) (Inr (Some ''{'')) ?ids
     = [\<lparr>state_id = ''a'', status = Todo, doneAt = None\<rparr>,
        \<lparr>state_id = ''b'', status = Todo, doneAt = None\<rparr>]"
    using loadState_reconciles [of "\<lambda>_. Inl SyntaxError" "Inr (Some ''{'')" ?ids]
    by simp
  from t k0 k1 bad show ?thesis by blast
qed

section \<open>Progress\<close>

text \<open>
  The error of one rounding is at most \<open>2\<^sup>-\<^sup>5\<^sup>3\<close> of the value, so the rounded product
  \<^verbatim>\<open>(done / n) * 100\<close> is within \<open>300 / 2\<^sup>5\<^sup>3\<close> of the exact \<open>100 * done / n\<close>. An
  exact percentage that is not half-way between two integers is at least \<open>1 / (2 * n)\<close>
  away from the half-way points, and an array has fewer than \<open>2\<^sup>3\<^sup>2\<close> elements.
\<close>

lemma rne_err: "\<bar>of_int (rne m) - m\<bar> \<le> 1/2"
proof -
  have "of_int \<lfloor>m\<rfloor> \<le> m" "m < of_int \<lfloor>m\<rfloor> + 1"
    by linarith+
  then show ?thesis
    unfolding rne_def Let_def by (simp split: if_splits)
qed

lemma bitlen_powi:
  assumes "0 < p"
  shows "2 powi (bitlen p - 1) \<le> (of_int p :: rat)" "(of_int p :: rat) < 2 powi (bitlen p)"
proof -
  from bitlen_bounds [OF assms]
  have lo: "2 ^ nat (bitlen p - 1) \<le> p" and hi: "p < 2 ^ nat (bitlen p)"
    by simp_all
  have b1: "1 \<le> bitlen p"
    using assms bitlen_eq_zero_iff [of p] bitlen_nonneg [of p] by linarith
  have "(of_int (2 ^ nat (bitlen p - 1)) :: rat) \<le> of_int p"
    using lo of_int_le_iff by blast
  then show "2 powi (bitlen p - 1) \<le> (of_int p :: rat)"
    using b1 by (simp add: power_int_def)
  have "(of_int p :: rat) < of_int (2 ^ nat (bitlen p))"
    using hi of_int_less_iff by blast
  then show "(of_int p :: rat) < 2 powi (bitlen p)"
    using b1 by (simp add: power_int_def)
qed

lemma binade_bounds:
  assumes "0 < x"
  shows "2 powi (binade x) \<le> x" "x < 2 powi (binade x + 1)"
proof -
  obtain p q where pq: "quotient_of x = (p, q)"
    by (cases "quotient_of x")
  have q: "0 < q" using pq by (rule quotient_of_denom_pos)
  have x: "x = of_int p / of_int q" using pq by (rule quotient_of_div)
  have p: "0 < p"
    using assms q x by (simp add: zero_less_divide_iff)
  define k where "k = bitlen p - bitlen q"
  have e: "binade x = (if x < 2 powi k then k - 1 else k)"
    by (simp add: binade_def pq k_def)
  have qr: "0 < (of_int q :: rat)" using q by simp
  have "(2::rat) powi (k - 1) * of_int q < 2 powi (k - 1) * 2 powi (bitlen q)"
    using bitlen_powi(2) [OF q] by (simp add: zero_less_power_int)
  also have "\<dots> = 2 powi (bitlen p - 1)"
    by (simp add: k_def flip: power_int_add)
  also have "\<dots> \<le> of_int p" by (rule bitlen_powi(1) [OF p])
  finally have lo: "2 powi (k - 1) < x"
    using qr by (simp add: x pos_less_divide_eq)
  have "of_int p < (2::rat) powi (bitlen p)" by (rule bitlen_powi(2) [OF p])
  also have "\<dots> = 2 powi (k + 1) * 2 powi (bitlen q - 1)"
    by (simp add: k_def flip: power_int_add)
  also have "\<dots> \<le> 2 powi (k + 1) * of_int q"
    using bitlen_powi(1) [OF q] by (simp add: zero_less_power_int)
  finally have hi: "x < 2 powi (k + 1)"
    using qr by (simp add: x pos_divide_less_eq)
  show "2 powi (binade x) \<le> x"
    using lo by (simp add: e)
  show "x < 2 powi (binade x + 1)"
    using hi by (simp add: e)
qed

lemma fl_err:
  assumes "0 < x"
  shows "\<bar>fl x - x\<bar> \<le> x / 2 ^ 53"
proof -
  define e where "e = binade x"
  define m where "m = x * 2 powi (52 - e)"
  have fx: "fl x = of_int (rne m) * 2 powi (e - 52)"
    using assms by (simp add: fl_def e_def m_def Let_def)
  have xm: "x = m * 2 powi (e - 52)"
    by (simp add: m_def flip: power_int_add)
  have pos: "0 < (2::rat) powi (e - 52)" by (simp add: zero_less_power_int)
  have "\<bar>fl x - x\<bar> = \<bar>of_int (rne m) - m\<bar> * 2 powi (e - 52)"
    using pos by (subst xm) (simp add: fx abs_mult flip: left_diff_distrib)
  also have "\<dots> \<le> (1/2) * 2 powi (e - 52)"
    using rne_err [of m] pos by (simp add: mult_right_mono)
  also have "\<dots> = 2 powi e / 2 ^ 53"
    by (simp add: power_int_diff)
  also have "\<dots> \<le> x / 2 ^ 53"
    using binade_bounds(1) [OF assms] by (simp add: e_def divide_right_mono)
  finally show ?thesis .
qed


lemma fl_zero [simp]: "fl 0 = 0"
  by (simp add: fl_def)

lemma product_err:
  assumes "0 < x" "x \<le> 1"
  shows "\<bar>fl (fl x * 100) - 100 * x\<bar> \<le> 300 / 2 ^ 53"
proof -
  have e1: "\<bar>fl x - x\<bar> \<le> x / 2 ^ 53" by (rule fl_err [OF assms(1)])
  have "x / 2 ^ 53 < x" using assms(1) by simp
  with e1 have y1: "0 < fl x" "fl x \<le> 2 * x" by linarith+
  then have "0 < fl x * 100" by simp
  from fl_err [OF this]
  have e2: "\<bar>fl (fl x * 100) - fl x * 100\<bar> \<le> fl x * 100 / 2 ^ 53" .
  have "fl x * 100 / 2 ^ 53 \<le> 200 / 2 ^ 53"
    using y1(2) assms(2) by simp
  moreover have "100 * (x / 2 ^ 53) \<le> 100 / 2 ^ 53"
    using assms(2) by simp
  ultimately show ?thesis using e1 e2 by linarith
qed

lemma round_product_near:
  fixes c n :: nat
  assumes n: "0 < n" and cn: "c \<le> n" and len: "n < 2 ^ 32"
  shows "\<bar>of_int \<lfloor>fl (fl (of_nat c / of_nat n) * 100) + 1 / 2\<rfloor> - 100 * of_nat c / of_nat n\<bar>
           \<le> (1 / 2 :: rat)"
proof (cases "c = 0")
  case True
  have "\<lfloor>1 / 2 :: rat\<rfloor> = 0"
    by (rule floor_unique) simp_all
  with True show ?thesis by simp
next
  case False
  define x :: rat where "x = of_nat c / of_nat n"
  define y where "y = fl (fl x * 100)"
  define r where "r = \<lfloor>y + 1 / 2\<rfloor>"
  define D where "D = 2 * r * int n - 200 * int c"
  have nr: "0 < (of_nat n :: rat)" using n by simp
  have x: "0 < x" "x \<le> 1"
    using False n cn by (simp_all add: x_def)
  have err: "\<bar>y - 100 * x\<bar> \<le> 300 / 2 ^ 53"
    unfolding y_def by (rule product_err [OF x])
  have r: "of_int r \<le> y + 1 / 2" "y + 1 / 2 < of_int r + 1"
    unfolding r_def by linarith+
  have small: "2 * of_nat n * (300 / 2 ^ 53) < (1::rat)"
  proof -
    have "(of_nat n :: rat) < of_nat (2 ^ 32)"
      using len of_nat_less_iff by blast
    then show ?thesis by simp
  qed
  have Dr: "(of_int D :: rat) = 2 * of_nat n * (of_int r - 100 * x)"
    using nr by (simp add: D_def x_def algebra_simps)
  have up: "of_int r - 100 * x \<le> 1 / 2 + 300 / 2 ^ 53"
    and lo: "- (1 / 2) - 300 / 2 ^ 53 < of_int r - 100 * x"
    using r err by linarith+
  have "(of_int D :: rat) \<le> 2 * of_nat n * (1 / 2 + 300 / 2 ^ 53)"
    unfolding Dr using up nr by (intro mult_left_mono) simp_all
  also have "\<dots> < of_nat n + 1"
    using small by (simp add: algebra_simps)
  finally have "(of_int D :: rat) < of_int (int n + 1)" by simp
  then have D_up: "D \<le> int n" by (simp only: of_int_less_iff)
  have "(of_int (- int n - 1) :: rat) < 2 * of_nat n * (- (1 / 2) - 300 / 2 ^ 53)"
    using small by (simp add: algebra_simps)
  also have "\<dots> < of_int D"
    unfolding Dr using lo nr by (intro mult_strict_left_mono) simp_all
  finally have D_lo: "- int n \<le> D" by (simp only: of_int_less_iff)
  have "\<bar>(of_int D :: rat)\<bar> \<le> of_nat n"
    using D_up D_lo by (metis abs_le_iff minus_le_iff of_int_abs of_int_le_iff of_int_of_nat_eq)
  then have "2 * of_nat n * \<bar>of_int r - 100 * x\<bar> \<le> (of_nat n :: rat)"
    unfolding Dr using nr by (simp add: abs_mult)
  then have "\<bar>of_int r - 100 * x\<bar> \<le> (1 / 2 :: rat)"
    using nr by (simp add: field_simps)
  then show ?thesis
    by (simp add: r_def y_def x_def)
qed


text \<open>
  C4 (as amended). For a status list that is not empty (and of a length that an array
  can have), \<open>progress\<close> is an integer between 0 and 100 that is nearest to
  \<open>100 * completed / total\<close>, where \<open>completed\<close> counts the records with status
  \<open>Done\<close> only. It is \<open>round (100 * completed / total)\<close> unless the exact percentage
  lies half-way between two integers; there the rounded product may fall below the
  half and the result is the lower neighbour. On the empty list the quotient is
  \<^verbatim>\<open>0 / 0\<close> and \<open>progress\<close> is \<open>NaN\<close>.
\<close>

theorem progress_nearest:
  "(sts \<noteq> [] \<and> length sts < 2 ^ 32 \<longrightarrow>
      (\<exists>r::int.
         progress sts = Finite (of_int r)
         \<and> 0 \<le> r \<and> r \<le> 100
         \<and> \<bar>of_int r
              - 100 * of_nat (length (filter (\<lambda>s. status s = Done) sts)) / of_nat (length sts)\<bar>
             \<le> (1 / 2 :: rat)
         \<and> (r = round (100 * of_nat (length (filter (\<lambda>s. status s = Done) sts))
                        / of_nat (length sts) :: rat)
              \<or> 100 * of_nat (length (filter (\<lambda>s. status s = Done) sts)) / of_nat (length sts)
                  = (of_int r + 1 / 2 :: rat))))
   \<and> progress [] = NaN"
proof (intro conjI impI)
  assume h: "sts \<noteq> [] \<and> length sts < 2 ^ 32"
  define c where "c = length (filter (\<lambda>s. status s = Done) sts)"
  define n where "n = length sts"
  define t :: rat where "t = 100 * of_nat c / of_nat n"
  define r where "r = \<lfloor>fl (fl (of_nat c / of_nat n) * 100) + 1 / 2\<rfloor>"
  have n: "0 < n" "n < 2 ^ 32" and cn: "c \<le> n"
    using h by (simp_all add: n_def c_def)
  have val: "progress sts = Finite (of_int r)"
    using n(1) by (simp add: progress_def js_divide_def r_def c_def n_def)
  have near: "\<bar>of_int r - t\<bar> \<le> 1 / 2"
    unfolding r_def t_def by (rule round_product_near [OF n(1) cn n(2)])
  have t0: "0 \<le> t" by (simp add: t_def)
  have "of_nat c \<le> (of_nat n :: rat)" using cn by simp
  then have t100: "t \<le> 100" using n(1) by (simp add: t_def field_simps)
  have "(of_int (- 1) :: rat) < of_int r" using near t0 by linarith
  then have r0: "0 \<le> r" by (simp only: of_int_less_iff)
  have "(of_int r :: rat) < of_int 101" using near t100 by linarith
  then have r100: "r \<le> 100" by (simp only: of_int_less_iff)
  have tie: "r = round t \<or> t = of_int r + 1 / 2"
  proof (cases "t - of_int r < 1 / 2")
    case True
    have "\<lfloor>t + 1 / 2\<rfloor> = r"
      using near True by (intro floor_unique) linarith+
    then show ?thesis by (simp add: round_def)
  next
    case False
    with near have "t = of_int r + 1 / 2" by linarith
    then show ?thesis ..
  qed
  show "\<exists>r::int.
         progress sts = Finite (of_int r)
         \<and> 0 \<le> r \<and> r \<le> 100
         \<and> \<bar>of_int r
              - 100 * of_nat (length (filter (\<lambda>s. status s = Done) sts)) / of_nat (length sts)\<bar>
             \<le> (1 / 2 :: rat)
         \<and> (r = round (100 * of_nat (length (filter (\<lambda>s. status s = Done) sts))
                        / of_nat (length sts) :: rat)
              \<or> 100 * of_nat (length (filter (\<lambda>s. status s = Done) sts)) / of_nat (length sts)
                  = (of_int r + 1 / 2 :: rat))"
    using val r0 r100 near tie unfolding t_def c_def n_def by blast
next
  show "progress [] = NaN"
    by (simp add: progress_def js_divide_def)
qed

text \<open>
  The scenario of the specification: three steps, the first completed, the second
  skipped, the third pending.
\<close>

theorem progress_nearest_witness:
  "[\<lparr>state_id = ''a'', status = Done, doneAt = Some ''t''\<rparr>,
    \<lparr>state_id = ''b'', status = Skipped, doneAt = None\<rparr>,
    \<lparr>state_id = ''c'', status = Todo, doneAt = None\<rparr>] \<noteq> []
   \<and> progress [\<lparr>state_id = ''a'', status = Done, doneAt = Some ''t''\<rparr>,
               \<lparr>state_id = ''b'', status = Skipped, doneAt = None\<rparr>,
               \<lparr>state_id = ''c'', status = Todo, doneAt = None\<rparr>] = Finite 33
   \<and> \<bar>33 - 100 * 1 / 3\<bar> \<le> (1 / 2 :: rat)"
proof -
  let ?sts = "[\<lparr>state_id = ''a'', status = Done, doneAt = Some ''t''\<rparr>,
               \<lparr>state_id = ''b'', status = Skipped, doneAt = None\<rparr>,
               \<lparr>state_id = ''c'', status = Todo, doneAt = None\<rparr>]"
  have len: "?sts \<noteq> [] \<and> length ?sts < 2 ^ 32" by simp
  from progress_nearest [of ?sts, THEN conjunct1, rule_format, OF len]
  obtain r :: int where r: "progress ?sts = Finite (of_int r)"
    and near: "\<bar>of_int r - 100 * of_nat (length (filter (\<lambda>s. status s = Done) ?sts))
                 / of_nat (length ?sts)\<bar> \<le> (1 / 2 :: rat)"
    by blast
  have ev: "progress ?sts = Finite 33" by code_simp
  with r have "(of_int r :: rat) = 33" by simp
  with near have "\<bar>33 - 100 * 1 / 3\<bar> \<le> (1 / 2 :: rat)" by simp
  with ev show ?thesis by simp
qed

text \<open>
  The claim as written fails twice: on the empty list the result is \<open>NaN\<close>, not 0; and
  with 23 of 40 steps completed the exact percentage is 57.5, which rounds to 58, while
  the binary64 product \<^verbatim>\<open>(23 / 40) * 100\<close> is just below 57.5 and \<open>progress\<close> is 57.
\<close>

theorem progress_round_counterexample:
  "progress [] = NaN
   \<and> progress [] \<noteq> Finite 0
   \<and> length (filter (\<lambda>s. status s = Done)
        (map (\<lambda>k. \<lparr>state_id = replicate (Suc k) CHR ''s'',
                     status = (if k < 23 then Done else Todo),
                     doneAt = (if k < 23 then Some ''t'' else None)\<rparr>) [0..<40])) = 23
   \<and> progress (map (\<lambda>k. \<lparr>state_id = replicate (Suc k) CHR ''s'',
                            status = (if k < 23 then Done else Todo),
                            doneAt = (if k < 23 then Some ''t'' else None)\<rparr>) [0..<40])
       = Finite 57
   \<and> round (100 * 23 / 40 :: rat) = 58"
proof -
  have 1: "progress [] = NaN" by code_simp
  have 2: "length (filter (\<lambda>s. status s = Done)
        (map (\<lambda>k. \<lparr>state_id = replicate (Suc k) CHR ''s'',
                     status = (if k < 23 then Done else Todo),
                     doneAt = (if k < 23 then Some ''t'' else None)\<rparr>) [0..<40])) = 23"
    by code_simp
  have 3: "progress (map (\<lambda>k. \<lparr>state_id = replicate (Suc k) CHR ''s'',
                            status = (if k < 23 then Done else Todo),
                            doneAt = (if k < 23 then Some ''t'' else None)\<rparr>) [0..<40])
       = Finite 57"
    by code_simp
  have 4: "round (100 * 23 / 40 :: rat) = 58"
    unfolding round_def by (rule floor_unique) simp_all
  from 1 2 3 4 show ?thesis by simp
qed

section \<open>Marking done, skipping and resetting\<close>

lemma findIndex_from_cases:
  "(findIndex_from p i xs = -1 \<and> (\<forall>k<length xs. \<not> p (xs ! k) (i + int k)))
   \<or> (\<exists>k<length xs. findIndex_from p i xs = i + int k \<and> p (xs ! k) (i + int k)
         \<and> (\<forall>j<k. \<not> p (xs ! j) (i + int j)))"
proof (induction xs arbitrary: i)
  case Nil
  then show ?case by simp
next
  case (Cons x xs)
  show ?case
  proof (cases "p x i")
    case True
    then have "findIndex_from p i (x # xs) = i + int 0 \<and> p ((x # xs) ! 0) (i + int 0)
        \<and> (\<forall>j<0. \<not> p ((x # xs) ! j) (i + int j))"
      by simp
    then show ?thesis by blast
  next
    case False
    from Cons.IH [of "i + 1"] show ?thesis
    proof
      assume a: "findIndex_from p (i + 1) xs = - 1
                 \<and> (\<forall>k<length xs. \<not> p (xs ! k) (i + 1 + int k))"
      have "\<not> p ((x # xs) ! k) (i + int k)" if "k < length (x # xs)" for k
        using that a False by (cases k) (simp_all add: add.assoc)
      with a False show ?thesis by simp
    next
      assume "\<exists>k<length xs. findIndex_from p (i + 1) xs = i + 1 + int k
                \<and> p (xs ! k) (i + 1 + int k) \<and> (\<forall>j<k. \<not> p (xs ! j) (i + 1 + int j))"
      then obtain k where k: "k < length xs" "findIndex_from p (i + 1) xs = i + 1 + int k"
        "p (xs ! k) (i + 1 + int k)" "\<forall>j<k. \<not> p (xs ! j) (i + 1 + int j)"
        by blast
      have "\<not> p ((x # xs) ! j) (i + int j)" if "j < Suc k" for j
        using that k(4) False by (cases j) (simp_all add: add.assoc)
      with k False have "Suc k < length (x # xs)
          \<and> findIndex_from p i (x # xs) = i + int (Suc k)
          \<and> p ((x # xs) ! Suc k) (i + int (Suc k))
          \<and> (\<forall>j<Suc k. \<not> p ((x # xs) ! j) (i + int j))"
        by (simp add: add.assoc)
      then show ?thesis by blast
    qed
  qed
qed

lemma findIndex_cases:
  "(findIndex p xs = -1 \<and> (\<forall>k<length xs. \<not> p (xs ! k) (int k)))
   \<or> (\<exists>k<length xs. findIndex p xs = int k \<and> p (xs ! k) (int k)
         \<and> (\<forall>j<k. \<not> p (xs ! j) (int j)))"
  using findIndex_from_cases [of p 0 xs] by (simp add: findIndex_def)

lemma setStatus_nth:
  "k < length sts \<Longrightarrow>
   setStatus now i v sts ! k =
     (if state_id (sts ! k) = i
      then \<lparr>state_id = i, status = v, doneAt = (if v = Done then Some now else None)\<rparr>
      else sts ! k)"
  by (simp add: setStatus_def)

lemma length_setStatus [simp]: "length (setStatus now i v sts) = length sts"
  by (simp add: setStatus_def)

lemma state_id_setStatus [simp]: "map state_id (setStatus now i v sts) = map state_id sts"
  by (simp add: setStatus_def comp_def)

lemma setStatus_at_cursor:
  assumes "distinct (map state_id sts)" "k < length sts"
  shows "setStatus now (state_id (sts ! k)) v sts =
         sts[k := \<lparr>state_id = state_id (sts ! k), status = v,
                   doneAt = (if v = Done then Some now else None)\<rparr>]"
proof (rule nth_equalityI)
  show "length (setStatus now (state_id (sts ! k)) v sts) = length (sts[k := \<lparr>state_id = state_id (sts ! k), status = v,
                   doneAt = (if v = Done then Some now else None)\<rparr>])"
    by simp
  fix j assume "j < length (setStatus now (state_id (sts ! k)) v sts)"
  then have j: "j < length sts" by simp
  have "(state_id (sts ! j) = state_id (sts ! k)) = (j = k)"
    using assms j nth_eq_iff_index_eq [of "map state_id sts" j k] by simp
  then show "setStatus now (state_id (sts ! k)) v sts ! j =
     sts[k := \<lparr>state_id = state_id (sts ! k), status = v,
                   doneAt = (if v = Done then Some now else None)\<rparr>] ! j"
    using j by (simp add: setStatus_nth nth_list_update)
qed


lemma current_in_range:
  assumes "0 \<le> currentIndex st" "currentIndex st < int (length STEPS)"
  shows "current STEPS st = Some (STEPS ! nat (currentIndex st))"
  using assms by (simp add: current_def at_index_def)


text \<open>
  The Skip handler alone, before the effect runs: it sets the record of the step at
  the cursor to \<open>Skipped\<close> without \<open>doneAt\<close>, leaves the other records alone, and
  sets the cursor to the next index, or leaves it on the last step; no status is read.
\<close>

lemma onSkip_handler:
  assumes cur: "0 \<le> currentIndex st" "currentIndex st < int (length STEPS)"
    and ids: "map state_id (states st) = map step_id STEPS"
    and dist: "distinct (map step_id STEPS)"
  shows "\<exists>st'. onSkip STEPS now st = Inr st'
      \<and> search st' = search st \<and> meta st' = meta st
      \<and> states st' = (states st)[nat (currentIndex st) :=
            \<lparr>state_id = step_id (STEPS ! nat (currentIndex st)),
             status = Skipped, doneAt = None\<rparr>]
      \<and> currentIndex st' = min (int (length STEPS) - 1) (currentIndex st + 1)
      \<and> (currentIndex st + 1 < int (length STEPS) \<longrightarrow> currentIndex st' = currentIndex st + 1)
      \<and> (currentIndex st + 1 = int (length STEPS) \<longrightarrow> currentIndex st' = currentIndex st)"
proof -
  define c where "c = nat (currentIndex st)"
  have len: "length (states st) = length STEPS"
    using ids by (metis length_map)
  have c: "c < length STEPS"
    using cur by (simp add: c_def)
  have nat_c: "nat (currentIndex st) = c"
    by (simp add: c_def)
  have cur_step: "current STEPS st = Some (STEPS ! c)"
    using cur by (simp add: current_in_range c_def)
  have id_c: "step_id (STEPS ! c) = state_id (states st ! c)"
    using c len by (metis ids nth_map)
  have S': "setStatus now (step_id (STEPS ! c)) Skipped (states st)
            = (states st)[c := \<lparr>state_id = step_id (STEPS ! c), status = Skipped,
                    doneAt = None\<rparr>]"
    unfolding id_c
    using dist c len setStatus_at_cursor [of "states st" c now Skipped] by (simp add: ids)
  show ?thesis
    using cur by (simp add: onSkip_def cur_step S' nat_c)
qed

text \<open>
  The Reset handler alone, before the effect runs: it replaces the status list by one
  pending record without \<open>doneAt\<close> per catalog step, in catalog order, and sets the
  cursor to index 0; the search text and the metadata stay.
\<close>

lemma resetAll_handler:
  "states (resetAll STEPS st) = map (\<lambda>s. \<lparr>state_id = step_id s, status = Todo, doneAt = None\<rparr>) STEPS
   \<and> map state_id (states (resetAll STEPS st)) = map step_id STEPS
   \<and> (\<forall>s \<in> set (states (resetAll STEPS st)). status s = Todo \<and> doneAt s = None)
   \<and> currentIndex (resetAll STEPS st) = 0
   \<and> search (resetAll STEPS st) = search st
   \<and> meta (resetAll STEPS st) = meta st
   \<and> resetAll STEPS (resetAll STEPS st) = resetAll STEPS st"
  by (auto simp: resetAll_def comp_def)

text \<open>
  C6 (as amended). \<open>setStatus\<close> has no failure: it returns a status list of the same
  length for every identity. For an identity that no record carries, the list is
  returned as it is; otherwise every record of that identity gets the new status and
  the stamp, and the other records stay.
\<close>

theorem setStatus_total:
  "(i \<notin> set (map state_id sts) \<longrightarrow> setStatus now i v sts = sts)
   \<and> length (setStatus now i v sts) = length sts
   \<and> map state_id (setStatus now i v sts) = map state_id sts
   \<and> (\<forall>k < length sts.
         (state_id (sts ! k) = i \<longrightarrow>
            setStatus now i v sts ! k =
              \<lparr>state_id = i, status = v, doneAt = (if v = Done then Some now else None)\<rparr>)
         \<and> (state_id (sts ! k) \<noteq> i \<longrightarrow> setStatus now i v sts ! k = sts ! k))
   \<and> handle STEPS (SetStatus i v now) st = Inr (st\<lparr>states := setStatus now i v (states st)\<rparr>)"
proof (intro conjI impI allI)
  assume "i \<notin> set (map state_id sts)"
  then have "\<forall>s \<in> set sts. state_id s \<noteq> i" by auto
  then show "setStatus now i v sts = sts"
    by (simp add: setStatus_def map_idI)
qed (simp_all add: setStatus_nth)

text \<open>An identity of the status list, and one that is not there.\<close>

theorem setStatus_total_witness:
  "setStatus ''2026-01-01T00:00:00.000Z'' ''reporting'' Done
     [\<lparr>state_id = ''declare-incident'', status = Todo, doneAt = None\<rparr>,
      \<lparr>state_id = ''reporting'', status = Todo, doneAt = None\<rparr>] ! 1
   = \<lparr>state_id = ''reporting'', status = Done, doneAt = Some ''2026-01-01T00:00:00.000Z''\<rparr>
   \<and> setStatus ''2026-01-01T00:00:00.000Z'' ''reporting'' Done
     [\<lparr>state_id = ''declare-incident'', status = Todo, doneAt = None\<rparr>,
      \<lparr>state_id = ''reporting'', status = Todo, doneAt = None\<rparr>] ! 0
   = \<lparr>state_id = ''declare-incident'', status = Todo, doneAt = None\<rparr>
   \<and> setStatus ''2026-01-01T00:00:00.000Z'' ''no-such-step'' Done
     [\<lparr>state_id = ''declare-incident'', status = Todo, doneAt = None\<rparr>,
      \<lparr>state_id = ''reporting'', status = Todo, doneAt = None\<rparr>]
   = [\<lparr>state_id = ''declare-incident'', status = Todo, doneAt = None\<rparr>,
      \<lparr>state_id = ''reporting'', status = Todo, doneAt = None\<rparr>]"
proof -
  let ?sts = "[\<lparr>state_id = ''declare-incident'', status = Todo, doneAt = None\<rparr>,
      \<lparr>state_id = ''reporting'', status = Todo, doneAt = None\<rparr>]"
  note t = setStatus_total [of _ ?sts "''2026-01-01T00:00:00.000Z''" Done]
  note at = t [THEN conjunct2, THEN conjunct2, THEN conjunct2, THEN conjunct1, rule_format]
  have 1: "setStatus ''2026-01-01T00:00:00.000Z'' ''reporting'' Done ?sts ! 1
     = \<lparr>state_id = ''reporting'', status = Done, doneAt = Some ''2026-01-01T00:00:00.000Z''\<rparr>"
    using at [of 1 "''reporting''", THEN conjunct1] by simp
  have 0: "setStatus ''2026-01-01T00:00:00.000Z'' ''reporting'' Done ?sts ! 0
     = \<lparr>state_id = ''declare-incident'', status = Todo, doneAt = None\<rparr>"
    using at [of 0 "''reporting''", THEN conjunct2] by simp
  have 2: "setStatus ''2026-01-01T00:00:00.000Z'' ''no-such-step'' Done ?sts = ?sts"
    using t [of "''no-such-step''", THEN conjunct1] by simp
  from 0 1 2 show ?thesis by simp
qed

text \<open>
  The claim as written fails: for an identity that is not in the catalog the call
  returns normally, with the status list unchanged.
\<close>

theorem setStatus_unknown_counterexample:
  "handle excerpt (SetStatus ''no-such-step'' Done ''2026-01-01T00:00:00.000Z'')
     \<lparr>search = [], meta = default_meta,
      states = [\<lparr>state_id = ''declare-incident'', status = Todo, doneAt = None\<rparr>,
                \<lparr>state_id = ''change-freeze'', status = Todo, doneAt = None\<rparr>,
                \<lparr>state_id = ''reporting'', status = Todo, doneAt = None\<rparr>],
      currentIndex = 0\<rparr>
   = Inr \<lparr>search = [], meta = default_meta,
      states = [\<lparr>state_id = ''declare-incident'', status = Todo, doneAt = None\<rparr>,
                \<lparr>state_id = ''change-freeze'', status = Todo, doneAt = None\<rparr>,
                \<lparr>state_id = ''reporting'', status = Todo, doneAt = None\<rparr>],
      currentIndex = 0\<rparr>
   \<and> ''no-such-step'' \<notin> set (map step_id excerpt)"
  by (simp add: setStatus_def excerpt_def declare_incident_def change_freeze_def reporting_def)

section \<open>Search\<close>

lemma js_includes_iff: "js_includes s q = (\<exists>ps ss. s = ps @ q @ ss)"
proof (induction s)
  case Nil
  then show ?case by auto
next
  case (Cons c cs)
  have "(\<exists>ps ss. c # cs = ps @ q @ ss) = (prefix q (c # cs) \<or> (\<exists>ps ss. cs = ps @ q @ ss))"
  proof
    assume "\<exists>ps ss. c # cs = ps @ q @ ss"
    then obtain ps ss where e: "c # cs = ps @ q @ ss" by blast
    show "prefix q (c # cs) \<or> (\<exists>ps ss. cs = ps @ q @ ss)"
    proof (cases ps)
      case Nil
      with e show ?thesis by (simp add: prefix_def)
    next
      case (Cons p ps')
      with e have "cs = ps' @ q @ ss" by simp
      then show ?thesis by blast
    qed
  next
    assume "prefix q (c # cs) \<or> (\<exists>ps ss. cs = ps @ q @ ss)"
    then show "\<exists>ps ss. c # cs = ps @ q @ ss"
    proof
      assume "prefix q (c # cs)"
      then obtain ss where "c # cs = [] @ q @ ss" by (auto simp: prefix_def)
      then show ?thesis by blast
    next
      assume "\<exists>ps ss. cs = ps @ q @ ss"
      then obtain ps ss where "cs = ps @ q @ ss" by blast
      then have "c # cs = (c # ps) @ q @ ss" by simp
      then show ?thesis by blast
    qed
  qed
  with Cons.IH show ?case by simp
qed

lemma trim_Nil_iff: "(trim q = []) = (\<forall>c \<in> set q. isWhiteSpace c)"
proof
  assume "trim q = []"
  then have "dropWhile isWhiteSpace (rev (dropWhile isWhiteSpace q)) = []"
    by (simp add: trim_def)
  then have all: "\<forall>c \<in> set (dropWhile isWhiteSpace q). isWhiteSpace c"
    by (simp add: dropWhile_eq_Nil_conv)
  have "dropWhile isWhiteSpace q = []"
  proof (rule ccontr)
    assume ne: "dropWhile isWhiteSpace q \<noteq> []"
    then have "\<not> isWhiteSpace (hd (dropWhile isWhiteSpace q))"
      by (rule hd_dropWhile)
    moreover have "hd (dropWhile isWhiteSpace q) \<in> set (dropWhile isWhiteSpace q)"
      using ne by (rule hd_in_set)
    ultimately show False using all by blast
  qed
  then show "\<forall>c \<in> set q. isWhiteSpace c"
    by (simp add: dropWhile_eq_Nil_conv)
next
  assume "\<forall>c \<in> set q. isWhiteSpace c"
  then show "trim q = []"
    by (auto simp: trim_def dropWhile_eq_Nil_conv dest: set_dropWhileD)
qed

lemma toLowerCase_Nil_iff [simp]: "(toLowerCase s = []) = (s = [])"
  by (simp add: toLowerCase_def)

lemma map_fst_with_idx [simp]: "map fst (with_idx STEPS) = STEPS"
  by (simp add: with_idx_def)

lemma map_snd_with_idx: "map snd (with_idx STEPS) = map int [0..<length STEPS]"
  by (simp add: with_idx_def)

lemma with_idx_nth:
  "k < length STEPS \<Longrightarrow> with_idx STEPS ! k = (STEPS ! k, int k)"
  by (simp add: with_idx_def)

lemma in_with_idx:
  assumes "f \<in> set (with_idx STEPS)"
  shows "0 \<le> snd f \<and> snd f < int (length STEPS) \<and> STEPS ! nat (snd f) = fst f"
proof -
  from assms obtain k where "k < length (with_idx STEPS)" "with_idx STEPS ! k = f"
    by (auto simp: in_set_conv_nth)
  then have "k < length STEPS" "f = (STEPS ! k, int k)"
    by (simp_all add: with_idx_def)
  then show ?thesis by simp
qed

lemma map_fst_filter_zip:
  "length xs = length ys \<Longrightarrow>
   map fst (filter (\<lambda>(x, y). P x) (zip xs ys)) = filter P xs"
  by (induction xs ys rule: list_induct2) simp_all

lemma map_fst_filter_with_idx:
  "map fst (filter (\<lambda>(s, i). P s) (with_idx STEPS)) = filter P STEPS"
  by (simp add: with_idx_def map_fst_filter_zip)

lemma in_filtered:
  assumes "f \<in> set (filtered STEPS q)"
  shows "0 \<le> snd f \<and> snd f < int (length STEPS) \<and> STEPS ! nat (snd f) = fst f"
proof -
  from assms have "f \<in> set (with_idx STEPS)"
    by (auto simp: filtered_def Let_def split: if_splits)
  then show ?thesis by (rule in_with_idx)
qed

lemma sorted_filtered: "sorted_wrt (<) (map snd (filtered STEPS q))"
proof -
  have "sorted_wrt (<) (map int [0..<length STEPS])"
    by (simp add: sorted_wrt_map)
  then have w: "sorted_wrt (\<lambda>a b. snd a < snd b) (with_idx STEPS)"
    by (simp add: sorted_wrt_map flip: map_snd_with_idx)
  have "sorted_wrt (\<lambda>a b. snd a < snd b) (filtered STEPS q)"
    using w by (simp add: filtered_def Let_def sorted_wrt_filter)
  then show ?thesis by (simp add: sorted_wrt_map)
qed

lemma states_reconcile [simp]: "states (reconcile STEPS st) = states st"
  by (simp add: reconcile_def Let_def)

lemma search_reconcile [simp]: "search (reconcile STEPS st) = search st"
  by (simp add: reconcile_def Let_def)

lemma meta_reconcile [simp]: "meta (reconcile STEPS st) = meta st"
  by (simp add: reconcile_def Let_def)

text \<open>
  C7 (as amended). The query is trimmed and lowercased. When the result is not empty,
  \<open>filtered\<close> keeps exactly the catalog steps whose lowercased title, lowercased
  details or lowercased category name contains it as a substring, in catalog order and
  each with its catalog index. The trimmed query is empty exactly when the query
  consists of white space (or is empty), and then every catalog step is returned. A
  change of the search text leaves the status list and the metadata as they are.
\<close>

theorem filtered_matches:
  "(toLowerCase (trim q) \<noteq> [] \<longrightarrow>
      map fst (filtered STEPS q) =
        filter (\<lambda>s.
            (\<exists>ps ss. toLowerCase (title s) = ps @ toLowerCase (trim q) @ ss)
            \<or> (\<exists>ps ss. toLowerCase (details s) = ps @ toLowerCase (trim q) @ ss)
            \<or> (\<exists>ps ss. toLowerCase (category_name (category s))
                          = ps @ toLowerCase (trim q) @ ss)) STEPS)
   \<and> ((toLowerCase (trim q) = []) = (\<forall>c \<in> set q. isWhiteSpace c))
   \<and> ((\<forall>c \<in> set q. isWhiteSpace c) \<longrightarrow> map fst (filtered STEPS q) = STEPS)
   \<and> (\<forall>f \<in> set (filtered STEPS q).
         0 \<le> snd f \<and> snd f < int (length STEPS) \<and> STEPS ! nat (snd f) = fst f)
   \<and> sorted_wrt (<) (map snd (filtered STEPS q))
   \<and> (\<exists>st'. dispatch STEPS (SetSearch q) st = Inr st'
         \<and> search st' = q \<and> states st' = states st \<and> meta st' = meta st)"
proof (intro conjI impI ballI)
  assume ne: "toLowerCase (trim q) \<noteq> []"
  have "map fst (filtered STEPS q) =
        filter (\<lambda>s. js_includes (toLowerCase (title s)) (toLowerCase (trim q))
                \<or> js_includes (toLowerCase (details s)) (toLowerCase (trim q))
                \<or> js_includes (toLowerCase (category_name (category s)))
                     (toLowerCase (trim q))) STEPS"
    using ne by (simp add: filtered_def Let_def map_fst_filter_with_idx)
  then show "map fst (filtered STEPS q) =
        filter (\<lambda>s.
            (\<exists>ps ss. toLowerCase (title s) = ps @ toLowerCase (trim q) @ ss)
            \<or> (\<exists>ps ss. toLowerCase (details s) = ps @ toLowerCase (trim q) @ ss)
            \<or> (\<exists>ps ss. toLowerCase (category_name (category s))
                          = ps @ toLowerCase (trim q) @ ss)) STEPS"
    by (simp only: js_includes_iff)
next
  show "(toLowerCase (trim q) = []) = (\<forall>c \<in> set q. isWhiteSpace c)"
    by (simp add: trim_Nil_iff)
next
  assume "\<forall>c \<in> set q. isWhiteSpace c"
  then have "toLowerCase (trim q) = []" by (simp add: trim_Nil_iff)
  then show "map fst (filtered STEPS q) = STEPS"
    by (simp add: filtered_def)
next
  fix f assume "f \<in> set (filtered STEPS q)"
  then have r: "0 \<le> snd f \<and> snd f < int (length STEPS) \<and> STEPS ! nat (snd f) = fst f"
    by (rule in_filtered)
  from r show "0 \<le> snd f" by simp
  from r show "snd f < int (length STEPS)" by simp
  from r show "STEPS ! nat (snd f) = fst f" by simp
next
  show "sorted_wrt (<) (map snd (filtered STEPS q))"
    by (rule sorted_filtered)
next
  show "\<exists>st'. dispatch STEPS (SetSearch q) st = Inr st'
         \<and> search st' = q \<and> states st' = states st \<and> meta st' = meta st"
    by (simp add: dispatch_def)
qed

text \<open>
  A padded upper-case query finds the first step of the excerpt through its title; a
  query of three spaces returns the whole excerpt.
\<close>

theorem filtered_matches_witness:
  "toLowerCase (trim ''  ROLES '') \<noteq> []
   \<and> filter (\<lambda>s.
            (\<exists>ps ss. toLowerCase (title s) = ps @ toLowerCase (trim ''  ROLES '') @ ss)
            \<or> (\<exists>ps ss. toLowerCase (details s) = ps @ toLowerCase (trim ''  ROLES '') @ ss)
            \<or> (\<exists>ps ss. toLowerCase (category_name (category s))
                          = ps @ toLowerCase (trim ''  ROLES '') @ ss)) excerpt
       = [declare_incident]
   \<and> map snd (filtered excerpt ''  ROLES '') = [0]
   \<and> map fst (filtered excerpt ''   '') = excerpt"
proof -
  have ne: "toLowerCase (trim ''  ROLES '') \<noteq> []" by code_simp
  have ev: "map fst (filtered excerpt ''  ROLES '') = [declare_incident]" by code_simp
  have idx: "map snd (filtered excerpt ''  ROLES '') = [0]" by code_simp
  have ws: "\<forall>c \<in> set ''   ''. isWhiteSpace c" by code_simp
  from filtered_matches [of "''  ROLES ''" excerpt, THEN conjunct1, THEN mp, OF ne] ev
  have 1: "filter (\<lambda>s.
            (\<exists>ps ss. toLowerCase (title s) = ps @ toLowerCase (trim ''  ROLES '') @ ss)
            \<or> (\<exists>ps ss. toLowerCase (details s) = ps @ toLowerCase (trim ''  ROLES '') @ ss)
            \<or> (\<exists>ps ss. toLowerCase (category_name (category s))
                          = ps @ toLowerCase (trim ''  ROLES '') @ ss)) excerpt
       = [declare_incident]"
    by simp
  from filtered_matches [of "''   ''" excerpt, THEN conjunct2, THEN conjunct2, THEN conjunct1,
      THEN mp, OF ws]
  have 2: "map fst (filtered excerpt ''   '') = excerpt" .
  from ne 1 idx 2 show ?thesis by blast
qed

text \<open>
  The claim as written fails for a query with white space at an end: \<open>roles\<close>
  followed by a space returns the first step, whose lowercased title, details and
  category name do not contain the lowercased query with its space.
\<close>

theorem filtered_untrimmed_counterexample:
  "map fst (filtered excerpt ''roles '') = [declare_incident]
   \<and> \<not> js_includes (toLowerCase (title declare_incident)) (toLowerCase ''roles '')
   \<and> \<not> js_includes (toLowerCase (details declare_incident)) (toLowerCase ''roles '')
   \<and> \<not> js_includes (toLowerCase (category_name (category declare_incident)))
          (toLowerCase ''roles '')"
proof -
  have 1: "map fst (filtered excerpt ''roles '') = [declare_incident]" by code_simp
  have 2: "\<not> js_includes (toLowerCase (title declare_incident)) (toLowerCase ''roles '')"
    by code_simp
  have 3: "\<not> js_includes (toLowerCase (details declare_incident)) (toLowerCase ''roles '')"
    by code_simp
  have 4: "\<not> js_includes (toLowerCase (category_name (category declare_incident)))
          (toLowerCase ''roles '')"
    by code_simp
  from 1 2 3 4 show ?thesis by blast
qed

section \<open>Reconciliation of the cursor\<close>

lemma findIndex_nonneg_iff:
  "(findIndex p xs \<ge> 0) = (\<exists>k<length xs. p (xs ! k) (int k))"
  using findIndex_cases [of p xs] by auto

lemma ex_nth_iff: "(\<exists>k<length xs. P (xs ! k)) = (\<exists>x \<in> set xs. P x)"
  by (metis in_set_conv_nth)

lemma reconcile_visible_iff:
  "(findIndex (\<lambda>s i. Some (step_id (fst s)) = map_option step_id (at_index STEPS (currentIndex st)))
      flt \<ge> 0)
   = (\<exists>s. current STEPS st = Some s \<and> visible flt s)"
proof (cases "at_index STEPS (currentIndex st)")
  case None
  then show ?thesis
    by (simp add: findIndex_nonneg_iff current_def)
next
  case (Some a)
  have "(\<exists>k<length flt. step_id (fst (flt ! k)) = step_id a)
        = (\<exists>f \<in> set flt. step_id (fst f) = step_id a)"
    by (rule ex_nth_iff [of flt "\<lambda>f. step_id (fst f) = step_id a"])
  with Some show ?thesis
    by (simp add: findIndex_nonneg_iff current_def visible_def)
qed

lemma hd_filtered_least:
  assumes "f \<in> set (filtered STEPS q)"
  shows "snd (hd (filtered STEPS q)) \<le> snd f"
proof -
  from assms obtain g gs where e: "filtered STEPS q = g # gs"
    by (cases "filtered STEPS q") auto
  from sorted_filtered [of STEPS q] have "\<forall>x \<in> set gs. snd g < snd x"
    by (simp add: e)
  with assms show ?thesis by (auto simp: e)
qed

text \<open>
  C3 (as amended). The effect leaves the state as it is when the step under the cursor
  is visible. When it is not visible and the filtered list is not empty, the cursor
  moves to the first filtered step, the visible step of least catalog index. When the
  filtered list is empty the cursor stays where it was. So whenever the filtered list
  is not empty, the cursor is on a visible step after the effect. The effect changes
  nothing but the cursor.
\<close>

theorem reconcile_cursor:
  "((\<exists>s. current STEPS st = Some s \<and> visible (filtered STEPS (search st)) s)
      \<longrightarrow> reconcile STEPS st = st)
   \<and> (\<not> (\<exists>s. current STEPS st = Some s \<and> visible (filtered STEPS (search st)) s)
        \<and> filtered STEPS (search st) \<noteq> []
      \<longrightarrow> reconcile STEPS st = st\<lparr>currentIndex := snd (hd (filtered STEPS (search st)))\<rparr>
          \<and> (\<forall>f \<in> set (filtered STEPS (search st)).
                snd (hd (filtered STEPS (search st))) \<le> snd f))
   \<and> (filtered STEPS (search st) = [] \<longrightarrow> reconcile STEPS st = st)
   \<and> (filtered STEPS (search st) \<noteq> []
      \<longrightarrow> (\<exists>s. current STEPS (reconcile STEPS st) = Some s
                \<and> visible (filtered STEPS (search (reconcile STEPS st))) s))
   \<and> states (reconcile STEPS st) = states st
   \<and> search (reconcile STEPS st) = search st
   \<and> meta (reconcile STEPS st) = meta st"
proof -
  define flt where "flt = filtered STEPS (search st)"
  define vis where "vis = (\<exists>s. current STEPS st = Some s \<and> visible flt s)"
  have r: "reconcile STEPS st =
      (if vis then st else if flt \<noteq> [] then st\<lparr>currentIndex := snd (hd flt)\<rparr> else st)"
    unfolding vis_def reconcile_visible_iff [symmetric]
    by (simp add: reconcile_def Let_def flt_def)
  have empty: "\<not> vis" if "flt = []"
    using that by (simp add: vis_def visible_def)
  have resolved: "\<exists>s. current STEPS (reconcile STEPS st) = Some s \<and> visible flt s"
    if ne: "flt \<noteq> []"
  proof (cases vis)
    case True
    then show ?thesis by (simp add: r) (simp add: vis_def)
  next
    case False
    from ne have mem: "hd flt \<in> set flt" by simp
    then have "0 \<le> snd (hd flt) \<and> snd (hd flt) < int (length STEPS)
        \<and> STEPS ! nat (snd (hd flt)) = fst (hd flt)"
      unfolding flt_def by (rule in_filtered)
    then have "current STEPS (st\<lparr>currentIndex := snd (hd flt)\<rparr>) = Some (fst (hd flt))"
      by (simp add: current_def at_index_def)
    moreover have "visible flt (fst (hd flt))"
      using mem by (auto simp: visible_def)
    ultimately show ?thesis using False ne by (simp add: r)
  qed
  have least: "\<forall>f \<in> set flt. snd (hd flt) \<le> snd f"
    unfolding flt_def by (auto intro: hd_filtered_least)
  show ?thesis
    unfolding flt_def [symmetric] vis_def [symmetric] search_reconcile
    using r empty resolved least by simp
qed

text \<open>
  The query \<open>report\<close> shows the last step of the excerpt only; a cursor on the first
  step moves there.
\<close>

theorem reconcile_cursor_witness:
  "reconcile excerpt
     \<lparr>search = ''report'', meta = default_meta,
      states = map (todo_state \<circ> step_id) excerpt, currentIndex = 0\<rparr>
   = \<lparr>search = ''report'', meta = default_meta,
      states = map (todo_state \<circ> step_id) excerpt, currentIndex = 2\<rparr>
   \<and> current excerpt (reconcile excerpt
     \<lparr>search = ''report'', meta = default_meta,
      states = map (todo_state \<circ> step_id) excerpt, currentIndex = 0\<rparr>) = Some reporting
   \<and> visible (filtered excerpt ''report'') reporting"
proof -
  let ?st = "\<lparr>search = ''report'', meta = default_meta,
      states = map (todo_state \<circ> step_id) excerpt, currentIndex = 0\<rparr>"
  have cur: "current excerpt ?st = Some declare_incident" by code_simp
  have inv: "\<not> visible (filtered excerpt (search ?st)) declare_incident" by code_simp
  have ne: "filtered excerpt (search ?st) \<noteq> []" by code_simp
  have first: "snd (hd (filtered excerpt (search ?st))) = 2" by code_simp
  have vis: "visible (filtered excerpt ''report'') reporting" by code_simp
  have "\<not> (\<exists>s. current excerpt ?st = Some s \<and> visible (filtered excerpt (search ?st)) s)"
    using cur inv by simp
  with ne reconcile_cursor [of excerpt ?st]
  have "reconcile excerpt ?st = ?st\<lparr>currentIndex := snd (hd (filtered excerpt (search ?st)))\<rparr>"
    by blast
  then have r: "reconcile excerpt ?st = ?st\<lparr>currentIndex := 2\<rparr>"
    by (simp only: first)
  have "current excerpt (?st\<lparr>currentIndex := 2\<rparr>) = Some reporting" by code_simp
  with r vis show ?thesis by simp
qed

text \<open>
  The claim as written fails for an empty filtered list: after the query \<open>zzz\<close>, which
  no step matches, the cursor is still index 0 and \<open>current\<close>, which the main card
  renders, is still the first step.
\<close>

theorem reconcile_empty_counterexample:
  "dispatch excerpt (SetSearch ''zzz'')
     \<lparr>search = [], meta = default_meta,
      states = map (todo_state \<circ> step_id) excerpt, currentIndex = 0\<rparr>
   = Inr \<lparr>search = ''zzz'', meta = default_meta,
          states = map (todo_state \<circ> step_id) excerpt, currentIndex = 0\<rparr>
   \<and> filtered excerpt ''zzz'' = []
   \<and> current excerpt
       \<lparr>search = ''zzz'', meta = default_meta,
        states = map (todo_state \<circ> step_id) excerpt, currentIndex = 0\<rparr>
     = Some declare_incident"
proof -
  have 1: "dispatch excerpt (SetSearch ''zzz'')
     \<lparr>search = [], meta = default_meta,
      states = map (todo_state \<circ> step_id) excerpt, currentIndex = 0\<rparr>
   = Inr \<lparr>search = ''zzz'', meta = default_meta,
          states = map (todo_state \<circ> step_id) excerpt, currentIndex = 0\<rparr>"
    by code_simp
  have 2: "filtered excerpt ''zzz'' = []" by code_simp
  have 3: "current excerpt
       \<lparr>search = ''zzz'', meta = default_meta,
        states = map (todo_state \<circ> step_id) excerpt, currentIndex = 0\<rparr>
     = Some declare_incident"
    by code_simp
  from 1 2 3 show ?thesis by blast
qed

section \<open>Audit export\<close>

lemma find_distinct_nth:
  "distinct (map f xs) \<Longrightarrow> k < length xs \<Longrightarrow> find (\<lambda>x. f x = f (xs ! k)) xs = Some (xs ! k)"
proof (induction xs arbitrary: k)
  case Nil
  then show ?case by simp
next
  case (Cons x xs)
  show ?case
  proof (cases k)
    case 0
    then show ?thesis by simp
  next
    case (Suc j)
    with Cons.prems have j: "j < length xs" and d: "distinct (map f xs)"
      and nx: "f x \<notin> f ` set xs"
      by simp_all
    from j nx have "f x \<noteq> f (xs ! j)" by (metis imageI nth_mem)
    with Cons.IH [OF d j] Suc show ?thesis by simp
  qed
qed

lemma find_aligned:
  assumes ids: "map state_id sts = map step_id STEPS"
    and dist: "distinct (map step_id STEPS)"
    and k: "k < length STEPS"
  shows "find (\<lambda>x. state_id x = step_id (STEPS ! k)) sts = Some (sts ! k)"
proof -
  have len: "length sts = length STEPS" using ids by (metis length_map)
  have "step_id (STEPS ! k) = state_id (sts ! k)"
    using k len by (metis ids nth_map)
  moreover have "distinct (map state_id sts)" using dist by (simp add: ids)
  ultimately show ?thesis
    using find_distinct_nth [of state_id sts k] k len by simp
qed

lemma find_Some_mem: "find p xs = Some x \<Longrightarrow> x \<in> set xs"
  by (auto simp: find_Some_iff)

lemma not_parsed_fallback:
  assumes "\<not> (\<exists>raw parsed. G = Inr (Some raw) \<and> raw \<noteq> [] \<and> P raw = Inr parsed)"
  shows "(\<exists>e. G = Inl e) \<or> G = Inr None \<or> G = Inr (Some [])
         \<or> (\<exists>raw e. G = Inr (Some raw) \<and> P raw = Inl e)"
proof (cases G)
  case (Inl e)
  then show ?thesis by simp
next
  case (Inr o1)
  show ?thesis
  proof (cases o1)
    case None
    with Inr show ?thesis by simp
  next
    case (Some raw)
    show ?thesis
    proof (cases "raw = []")
      case True
      with Inr Some show ?thesis by simp
    next
      case False
      with assms Inr Some show ?thesis by (cases "P raw") simp_all
    qed
  qed
qed

lemma loadState_elems:
  assumes "s \<in> set (loadState P G ids)"
  shows "(\<exists>raw parsed. G = Inr (Some raw) \<and> raw \<noteq> [] \<and> P raw = Inr parsed \<and> s \<in> set parsed)
         \<or> (\<exists>i. s = todo_state i)"
proof (cases "\<exists>raw parsed. G = Inr (Some raw) \<and> raw \<noteq> [] \<and> P raw = Inr parsed")
  case True
  then obtain raw parsed where h: "G = Inr (Some raw)" "raw \<noteq> []" "P raw = Inr parsed"
    by blast
  have "loadState P G ids =
         map (\<lambda>i. case find (\<lambda>s. state_id s = i) (rev parsed) of
                     None \<Rightarrow> todo_state i | Some s \<Rightarrow> s) ids"
    using h by (rule loadState_parsed)
  with assms obtain i where
    s: "s = (case find (\<lambda>s. state_id s = i) (rev parsed) of
               None \<Rightarrow> todo_state i | Some s \<Rightarrow> s)"
    by auto
  show ?thesis
  proof (cases "find (\<lambda>s. state_id s = i) (rev parsed)")
    case None
    with s show ?thesis by auto
  next
    case (Some x)
    then have "x \<in> set parsed" using find_Some_mem by fastforce
    with s Some h show ?thesis by simp
  qed
next
  case False
  then have "loadState P G ids = map todo_state ids"
    by (intro loadState_fallback not_parsed_fallback)
  with assms show ?thesis by auto
qed

lemma exportAudit_steps_nth:
  assumes "k < length STEPS"
  shows "steps (exportAudit STEPS now st) ! k =
     \<lparr>audit_id = step_id (STEPS ! k),
      audit_title = title (STEPS ! k),
      audit_category = category (STEPS ! k),
      audit_status =
        (case find (\<lambda>x. state_id x = step_id (STEPS ! k)) (states st) of
           Some x \<Rightarrow> status x | None \<Rightarrow> Todo),
      audit_doneAt =
        (case find (\<lambda>x. state_id x = step_id (STEPS ! k)) (states st) of
           Some x \<Rightarrow> doneAt x | None \<Rightarrow> None)\<rparr>"
  using assms by (simp add: exportAudit_def)

lemma exportAudit_pending:
  assumes "\<forall>s \<in> set (states st). status s = Todo \<and> doneAt s = None"
    and "e \<in> set (steps (exportAudit STEPS now st))"
  shows "audit_status e = Todo \<and> audit_doneAt e = None"
proof -
  from assms(2) obtain s :: StepItem where
    e: "audit_status e = (case find (\<lambda>x. state_id x = step_id s) (states st) of
           Some x \<Rightarrow> status x | None \<Rightarrow> Todo)"
       "audit_doneAt e = (case find (\<lambda>x. state_id x = step_id s) (states st) of
           Some x \<Rightarrow> doneAt x | None \<Rightarrow> None)"
    by (auto simp: exportAudit_def)
  show ?thesis
  proof (cases "find (\<lambda>x. state_id x = step_id s) (states st)")
    case None
    with e show ?thesis by simp
  next
    case (Some x)
    then have "x \<in> set (states st)" by (rule find_Some_mem)
    with assms(1) e Some show ?thesis by simp
  qed
qed

text \<open>
  C8. The audit carries the metadata, the instant of the export and one entry per
  catalog step, in catalog order, with the identity, title and category of the step;
  when the status list is aligned with a catalog of distinct identities, the entry
  carries the status and \<open>doneAt\<close> of the record of the step (\<open>None\<close> is \<^verbatim>\<open>null\<close>).
  Right after loading a store that is unreadable, absent, empty, unparsable or holds
  pending records without \<open>doneAt\<close> only, every entry is pending with \<open>None\<close>.
\<close>

theorem exportAudit_report:
  "audit_meta (exportAudit STEPS now st) = meta st
   \<and> generatedAt (exportAudit STEPS now st) = now
   \<and> map audit_id (steps (exportAudit STEPS now st)) = map step_id STEPS
   \<and> map audit_title (steps (exportAudit STEPS now st)) = map title STEPS
   \<and> map audit_category (steps (exportAudit STEPS now st)) = map category STEPS
   \<and> (map state_id (states st) = map step_id STEPS \<and> distinct (map step_id STEPS) \<longrightarrow>
        map audit_status (steps (exportAudit STEPS now st)) = map status (states st)
        \<and> map audit_doneAt (steps (exportAudit STEPS now st)) = map doneAt (states st))
   \<and> ((\<exists>e. G = Inl e) \<or> G = Inr None \<or> G = Inr (Some [])
        \<or> (\<exists>raw e. G = Inr (Some raw) \<and> P raw = Inl e)
        \<or> (\<exists>raw parsed. G = Inr (Some raw) \<and> P raw = Inr parsed
              \<and> (\<forall>s \<in> set parsed. status s = Todo \<and> doneAt s = None)) \<longrightarrow>
        (\<forall>e \<in> set (steps (exportAudit STEPS now (init P G STEPS))).
           audit_status e = Todo \<and> audit_doneAt e = None))"
proof (intro conjI impI)
  assume a: "map state_id (states st) = map step_id STEPS \<and> distinct (map step_id STEPS)"
  then have len: "length (states st) = length STEPS" by (metis length_map)
  have f: "find (\<lambda>x. state_id x = step_id (STEPS ! k)) (states st) = Some (states st ! k)"
    if "k < length STEPS" for k
    using a that by (intro find_aligned) simp_all
  show "map audit_status (steps (exportAudit STEPS now st)) = map status (states st)"
    using len by (intro nth_equalityI) (simp_all add: exportAudit_def f)
  show "map audit_doneAt (steps (exportAudit STEPS now st)) = map doneAt (states st)"
    using len by (intro nth_equalityI) (simp_all add: exportAudit_def f)
next
  assume u: "(\<exists>e. G = Inl e) \<or> G = Inr None \<or> G = Inr (Some [])
        \<or> (\<exists>raw e. G = Inr (Some raw) \<and> P raw = Inl e)
        \<or> (\<exists>raw parsed. G = Inr (Some raw) \<and> P raw = Inr parsed
              \<and> (\<forall>s \<in> set parsed. status s = Todo \<and> doneAt s = None))"
  have "status s = Todo \<and> doneAt s = None"
    if "s \<in> set (loadState P G (map step_id STEPS))" for s
    using loadState_elems [OF that] u by (auto simp: todo_state_def)
  then have "\<forall>s \<in> set (states (init P G STEPS)). status s = Todo \<and> doneAt s = None"
    by (simp add: init_def)
  then show "\<forall>e \<in> set (steps (exportAudit STEPS now (init P G STEPS))).
           audit_status e = Todo \<and> audit_doneAt e = None"
    using exportAudit_pending by blast
qed (simp_all add: exportAudit_def comp_def)

text \<open>
  The scenario of the specification (first step done, second skipped, third pending),
  and an export right after a first start with nothing stored.
\<close>

theorem exportAudit_report_witness:
  "map audit_status (steps (exportAudit excerpt ''2026-01-01T00:10:00.000Z''
      \<lparr>search = [], meta = default_meta,
       states = [\<lparr>state_id = ''declare-incident'', status = Done,
                   doneAt = Some ''2026-01-01T00:00:00.000Z''\<rparr>,
                 \<lparr>state_id = ''change-freeze'', status = Skipped, doneAt = None\<rparr>,
                 \<lparr>state_id = ''reporting'', status = Todo, doneAt = None\<rparr>],
       currentIndex = 2\<rparr>)) = [Done, Skipped, Todo]
   \<and> map audit_doneAt (steps (exportAudit excerpt ''2026-01-01T00:10:00.000Z''
      \<lparr>search = [], meta = default_meta,
       states = [\<lparr>state_id = ''declare-incident'', status = Done,
                   doneAt = Some ''2026-01-01T00:00:00.000Z''\<rparr>,
                 \<lparr>state_id = ''change-freeze'', status = Skipped, doneAt = None\<rparr>,
                 \<lparr>state_id = ''reporting'', status = Todo, doneAt = None\<rparr>],
       currentIndex = 2\<rparr>)) = [Some ''2026-01-01T00:00:00.000Z'', None, None]
   \<and> map audit_id (steps (exportAudit excerpt ''2026-01-01T00:10:00.000Z''
        (init (\<lambda>_. Inl SyntaxError) (Inr None) excerpt)))
       = [''declare-incident'', ''change-freeze'', ''reporting'']
   \<and> list_all (\<lambda>e. audit_status e = Todo \<and> audit_doneAt e = None)
         (steps (exportAudit excerpt ''2026-01-01T00:10:00.000Z''
                   (init (\<lambda>_. Inl SyntaxError) (Inr None) excerpt)))"
proof -
  let ?st = "\<lparr>search = [], meta = default_meta,
       states = [\<lparr>state_id = ''declare-incident'', status = Done,
                   doneAt = Some ''2026-01-01T00:00:00.000Z''\<rparr>,
                 \<lparr>state_id = ''change-freeze'', status = Skipped, doneAt = None\<rparr>,
                 \<lparr>state_id = ''reporting'', status = Todo, doneAt = None\<rparr>],
       currentIndex = 2\<rparr>"
  have al: "map state_id (states ?st) = map step_id excerpt \<and> distinct (map step_id excerpt)"
    by (simp add: excerpt_def declare_incident_def change_freeze_def reporting_def)
  note t = exportAudit_report [of excerpt "''2026-01-01T00:10:00.000Z''" _ "Inr None"
      "\<lambda>_. Inl SyntaxError"]
  note t5 = t [THEN conjunct2, THEN conjunct2, THEN conjunct2, THEN conjunct2, THEN conjunct2]
  from t5 [of ?st, THEN conjunct1, THEN mp, OF al]
  have 1: "map audit_status (steps (exportAudit excerpt ''2026-01-01T00:10:00.000Z'' ?st))
             = [Done, Skipped, Todo]"
    and 2: "map audit_doneAt (steps (exportAudit excerpt ''2026-01-01T00:10:00.000Z'' ?st))
             = [Some ''2026-01-01T00:00:00.000Z'', None, None]"
    by simp_all
  from t [of "init (\<lambda>_. Inl SyntaxError) (Inr None) excerpt"]
  have 3: "map audit_id (steps (exportAudit excerpt ''2026-01-01T00:10:00.000Z''
        (init (\<lambda>_. Inl SyntaxError) (Inr None) excerpt)))
       = [''declare-incident'', ''change-freeze'', ''reporting'']"
    by (simp add: excerpt_def declare_incident_def change_freeze_def reporting_def)
  from t5 [of ?st, THEN conjunct2]
  have "\<forall>e \<in> set (steps (exportAudit excerpt ''2026-01-01T00:10:00.000Z''
                      (init (\<lambda>_. Inl SyntaxError) (Inr None) excerpt))).
         audit_status e = Todo \<and> audit_doneAt e = None"
    by simp
  then have 4: "list_all (\<lambda>e. audit_status e = Todo \<and> audit_doneAt e = None)
         (steps (exportAudit excerpt ''2026-01-01T00:10:00.000Z''
                   (init (\<lambda>_. Inl SyntaxError) (Inr None) excerpt)))"
    by (simp only: list_all_iff)
  from 1 2 3 4 show ?thesis by blast
qed

section \<open>Sessions: the stamp invariant and the cursor range\<close>

lemma in_setStatus:
  assumes "s \<in> set (setStatus now i v sts)"
  shows "(s \<in> set sts \<and> state_id s \<noteq> i)
         \<or> (s = \<lparr>state_id = i, status = v, doneAt = (if v = Done then Some now else None)\<rparr>
             \<and> i \<in> state_id ` set sts)"
proof -
  from assms have "s \<in> (\<lambda>x. if state_id x = i
                 then x\<lparr>status := v, doneAt := (if v = Done then Some now else None)\<rparr>
                 else x) ` set sts"
    unfolding setStatus_def set_map .
  then obtain x where x: "x \<in> set sts"
    and s: "s = (if state_id x = i
                 then x\<lparr>status := v, doneAt := (if v = Done then Some now else None)\<rparr>
                 else x)"
    by (rule imageE)
  show ?thesis
  proof (cases "state_id x = i")
    case True
    with s have "s = \<lparr>state_id = i, status = v, doneAt = (if v = Done then Some now else None)\<rparr>"
      by simp
    moreover from x True have "i \<in> state_id ` set sts" by blast
    ultimately show ?thesis by blast
  next
    case False
    with s x show ?thesis by simp
  qed
qed

lemma setStatus_stamped:
  assumes "\<forall>s \<in> set sts. stamped s"
  shows "\<forall>s \<in> set (setStatus now i v sts). stamped s"
proof
  fix s assume "s \<in> set (setStatus now i v sts)"
  from in_setStatus [OF this] show "stamped s"
  proof
    assume "s \<in> set sts \<and> state_id s \<noteq> i"
    with assms show ?thesis by blast
  next
    assume "s = \<lparr>state_id = i, status = v, doneAt = (if v = Done then Some now else None)\<rparr>
             \<and> i \<in> state_id ` set sts"
    then show ?thesis by (simp add: stamped_def)
  qed
qed

lemma setStatus_stamp:
  "\<forall>s \<in> set (setStatus now i v sts).
     state_id s = i \<longrightarrow> status s = v \<and> doneAt s = (if v = Done then Some now else None)"
proof (intro ballI impI)
  fix s assume "s \<in> set (setStatus now i v sts)" and "state_id s = i"
  with in_setStatus [of s now i v sts]
  have "s = \<lparr>state_id = i, status = v, doneAt = (if v = Done then Some now else None)\<rparr>"
    by blast
  then show "status s = v \<and> doneAt s = (if v = Done then Some now else None)"
    by simp
qed

lemma onMarkDone_states:
  assumes "onMarkDone STEPS now chk st = Inr st'"
  shows "\<exists>i v. states st' = setStatus now i v (states st)"
proof (cases "current STEPS st")
  case None
  with assms show ?thesis by (simp add: onMarkDone_def)
next
  case (Some cur)
  show ?thesis
  proof (cases "Boolean chk")
    case False
    with assms Some
    have "st' = st\<lparr>states := setStatus now (step_id cur) Todo (states st)\<rparr>"
      by (simp add: onMarkDone_def)
    then have "states st' = setStatus now (step_id cur) Todo (states st)" by simp
    then show ?thesis by blast
  next
    case True
    with assms Some
    have "states st' = setStatus now (step_id cur) Done (states st)"
      by (auto simp add: onMarkDone_def Let_def split: if_splits)
    then show ?thesis by blast
  qed
qed

lemma onSkip_states:
  assumes "onSkip STEPS now st = Inr st'"
  shows "\<exists>i v. states st' = setStatus now i v (states st)"
proof (cases "current STEPS st")
  case None
  with assms show ?thesis by (simp add: onSkip_def)
next
  case (Some cur)
  with assms have "states st' = setStatus now (step_id cur) Skipped (states st)"
    by (auto simp add: onSkip_def Let_def)
  then show ?thesis by blast
qed

lemma handle_stamped:
  assumes h: "handle STEPS ev st = Inr st'"
    and inv: "\<forall>s \<in> set (states st). stamped s"
  shows "\<forall>s \<in> set (states st'). stamped s"
proof (cases ev)
  case (MarkDone chk now)
  with h have "onMarkDone STEPS now chk st = Inr st'" by simp
  then obtain i v where "states st' = setStatus now i v (states st)"
    using onMarkDone_states by blast
  with inv show ?thesis by (simp add: setStatus_stamped)
next
  case (Skip now)
  with h have "onSkip STEPS now st = Inr st'" by simp
  then obtain i v where "states st' = setStatus now i v (states st)"
    using onSkip_states by blast
  with inv show ?thesis by (simp add: setStatus_stamped)
next
  case Reset
  with h have "states st' = map (\<lambda>s. \<lparr>state_id = step_id s, status = Todo, doneAt = None\<rparr>) STEPS"
    by (auto simp: resetAll_def)
  then show ?thesis by (simp add: stamped_def)
next
  case Back
  with h have "states st' = states st" by auto
  with inv show ?thesis by simp
next
  case Next
  with h have "states st' = states st" by auto
  with inv show ?thesis by simp
next
  case (SetSearch q)
  with h have "states st' = states st" by auto
  with inv show ?thesis by simp
next
  case (Select i)
  with h have "st' = st \<or> st' = st\<lparr>currentIndex := i\<rparr>"
    by (simp split: option.splits if_splits)
  then have "states st' = states st" by auto
  with inv show ?thesis by simp
next
  case (SetStatus i v now)
  with h have "states st' = setStatus now i v (states st)" by auto
  with inv show ?thesis by (simp add: setStatus_stamped)
qed

lemma dispatch_stamped:
  assumes "dispatch STEPS ev st = Inr st'"
    and "\<forall>s \<in> set (states st). stamped s"
  shows "\<forall>s \<in> set (states st'). stamped s"
proof -
  from assms(1) obtain st1 where h: "handle STEPS ev st = Inr st1"
    and r: "st' = reconcile STEPS st1"
    by (auto simp: dispatch_def split: sum.splits)
  from handle_stamped [OF h assms(2)] show ?thesis by (simp add: r)
qed

lemma run_stamped:
  assumes "run STEPS evs st = Inr st'"
    and "\<forall>s \<in> set (states st). stamped s"
  shows "\<forall>s \<in> set (states st'). stamped s"
  using assms
proof (induction evs arbitrary: st)
  case Nil
  then show ?case by simp
next
  case (Cons ev evs)
  from Cons.prems(1) obtain st1 where d: "dispatch STEPS ev st = Inr st1"
    and r: "run STEPS evs st1 = Inr st'"
    by (auto split: sum.splits)
  have "\<forall>s \<in> set (states st1). stamped s"
    using d Cons.prems(2) by (rule dispatch_stamped)
  with r show ?case by (rule Cons.IH)
qed

lemma init_stamped:
  assumes "\<forall>raw parsed. G = Inr (Some raw) \<and> P raw = Inr parsed \<longrightarrow>
             (\<forall>s \<in> set parsed. stamped s)"
  shows "\<forall>s \<in> set (states (init P G STEPS)). stamped s"
proof
  fix s assume "s \<in> set (states (init P G STEPS))"
  then have "s \<in> set (loadState P G (map step_id STEPS))" by (simp add: init_def)
  from loadState_elems [OF this] show "stamped s"
  proof
    assume "\<exists>raw parsed. G = Inr (Some raw) \<and> raw \<noteq> [] \<and> P raw = Inr parsed \<and> s \<in> set parsed"
    with assms show ?thesis by blast
  next
    assume "\<exists>i. s = todo_state i"
    then show ?thesis by (auto simp: todo_state_def stamped_def)
  qed
qed

lemma reconcile_in_range:
  assumes "0 \<le> currentIndex st" "currentIndex st < int (length STEPS)"
  shows "0 \<le> currentIndex (reconcile STEPS st)
         \<and> currentIndex (reconcile STEPS st) < int (length STEPS)"
proof (cases "reconcile STEPS st = st")
  case True
  with assms show ?thesis by simp
next
  case False
  then have ne: "filtered STEPS (search st) \<noteq> []"
    and r: "reconcile STEPS st = st\<lparr>currentIndex := snd (hd (filtered STEPS (search st)))\<rparr>"
    by (auto simp: reconcile_def Let_def split: if_splits)
  from ne have "hd (filtered STEPS (search st)) \<in> set (filtered STEPS (search st))"
    by simp
  from in_filtered [OF this] show ?thesis by (simp add: r)
qed

lemma findIndex_range:
  "findIndex p xs > -1 \<Longrightarrow> 0 \<le> findIndex p xs \<and> findIndex p xs < int (length xs)"
  using findIndex_cases [of p xs] by auto

lemma handle_in_range:
  assumes "0 \<le> currentIndex st" "currentIndex st < int (length STEPS)"
  shows "\<exists>st'. handle STEPS ev st = Inr st'
           \<and> 0 \<le> currentIndex st' \<and> currentIndex st' < int (length STEPS)"
proof (cases ev)
  case (MarkDone chk now)
  have cur: "current STEPS st = Some (STEPS ! nat (currentIndex st))"
    using assms by (rule current_in_range)
  have "findIndex (\<lambda>(_::StepItem) i. i > currentIndex st
            \<and> map_option status (at_index (states st) i) \<noteq> Some Done) STEPS > -1
        \<Longrightarrow> 0 \<le> findIndex (\<lambda>(_::StepItem) i. i > currentIndex st
            \<and> map_option status (at_index (states st) i) \<noteq> Some Done) STEPS
          \<and> findIndex (\<lambda>(_::StepItem) i. i > currentIndex st
            \<and> map_option status (at_index (states st) i) \<noteq> Some Done) STEPS
            < int (length STEPS)"
    by (rule findIndex_range)
  then show ?thesis
    using assms by (simp add: MarkDone onMarkDone_def cur Let_def)
next
  case (Skip now)
  have cur: "current STEPS st = Some (STEPS ! nat (currentIndex st))"
    using assms by (rule current_in_range)
  have "0 \<le> min (int (length STEPS) - 1) (currentIndex st + 1)"
    "min (int (length STEPS) - 1) (currentIndex st + 1) < int (length STEPS)"
    using assms by linarith+
  then show ?thesis
    by (simp add: Skip onSkip_def cur Let_def)
next
  case Reset
  have "0 < int (length STEPS)" using assms by linarith
  then show ?thesis by (simp add: Reset resetAll_def)
next
  case Back
  have "0 \<le> max 0 (currentIndex st - 1)" "max 0 (currentIndex st - 1) < int (length STEPS)"
    using assms by linarith+
  then show ?thesis by (simp add: Back)
next
  case Next
  have "0 \<le> min (int (length STEPS) - 1) (currentIndex st + 1)"
    "min (int (length STEPS) - 1) (currentIndex st + 1) < int (length STEPS)"
    using assms by linarith+
  then show ?thesis by (simp add: Next)
next
  case (SetSearch q)
  with assms show ?thesis by simp
next
  case (Select i)
  show ?thesis
  proof (cases "at_index STEPS i")
    case None
    then have "handle STEPS ev st = Inr st" by (simp add: Select)
    with assms show ?thesis by simp
  next
    case (Some s)
    then have i: "0 \<le> i" "i < int (length STEPS)"
      by (simp_all add: at_index_def split: if_splits)
    have "handle STEPS ev st = Inr st \<or> handle STEPS ev st = Inr (st\<lparr>currentIndex := i\<rparr>)"
      by (simp add: Select Some)
    with assms i show ?thesis by auto
  qed
next
  case (SetStatus i v now)
  with assms show ?thesis by simp
qed

lemma dispatch_in_range:
  assumes "0 \<le> currentIndex st" "currentIndex st < int (length STEPS)"
  shows "\<exists>st'. dispatch STEPS ev st = Inr st'
           \<and> 0 \<le> currentIndex st' \<and> currentIndex st' < int (length STEPS)"
proof -
  from handle_in_range [OF assms, of ev] obtain st1 where
    h: "handle STEPS ev st = Inr st1"
    and r: "0 \<le> currentIndex st1" "currentIndex st1 < int (length STEPS)"
    by blast
  from reconcile_in_range [OF r] h show ?thesis
    by (simp add: dispatch_def)
qed

lemma run_total:
  assumes "0 \<le> currentIndex st" "currentIndex st < int (length STEPS)"
  shows "\<exists>st'. run STEPS evs st = Inr st'
           \<and> 0 \<le> currentIndex st' \<and> currentIndex st' < int (length STEPS)"
  using assms
proof (induction evs arbitrary: st)
  case Nil
  then show ?case by simp
next
  case (Cons ev evs)
  from dispatch_in_range [OF Cons.prems, of ev] obtain st1 where
    d: "dispatch STEPS ev st = Inr st1"
    and r: "0 \<le> currentIndex st1" "currentIndex st1 < int (length STEPS)"
    by blast
  from Cons.IH [OF r] d show ?case by simp
qed

text \<open>
  C9 (as amended). A session starts from \<open>init\<close> and handles any list of events. When
  the store is unreadable, absent, empty or unparsable, or every record of the parsed
  list is stamped (has \<open>doneAt\<close> exactly when its status is \<open>Done\<close>), every record of
  every state that the session reaches is stamped. \<open>setStatus\<close> gives the records of
  its identity the new status, with the current instant for \<open>Done\<close> and without
  \<open>doneAt\<close> otherwise, and keeps stamped lists stamped; \<open>resetAll\<close> leaves pending
  records without \<open>doneAt\<close>. On a catalog that is not empty no event fails, so such a
  session reaches a state after every list of events. \<open>loadState\<close> itself checks no
  record: it returns the persisted records as they are.
\<close>

theorem stamped_invariant:
  "((\<forall>raw parsed. G = Inr (Some raw) \<and> P raw = Inr parsed \<longrightarrow> (\<forall>s \<in> set parsed. stamped s))
      \<and> run STEPS evs (init P G STEPS) = Inr st
    \<longrightarrow> (\<forall>s \<in> set (states st). (doneAt s \<noteq> None) = (status s = Done)))
   \<and> (STEPS \<noteq> [] \<longrightarrow> (\<exists>st'. run STEPS evs (init P G STEPS) = Inr st'))
   \<and> (\<forall>s \<in> set (setStatus now i v sts).
         state_id s = i \<longrightarrow> status s = v \<and> doneAt s = (if v = Done then Some now else None))
   \<and> ((\<forall>s \<in> set sts. stamped s) \<longrightarrow> (\<forall>s \<in> set (setStatus now i v sts). stamped s))
   \<and> (\<forall>s \<in> set (states (resetAll STEPS st0)). status s = Todo \<and> doneAt s = None)"
proof (intro conjI impI)
  assume a: "(\<forall>raw parsed. G = Inr (Some raw) \<and> P raw = Inr parsed \<longrightarrow>
                (\<forall>s \<in> set parsed. stamped s))
             \<and> run STEPS evs (init P G STEPS) = Inr st"
  then have "\<forall>s \<in> set (states (init P G STEPS)). stamped s"
    by (intro init_stamped) blast
  with a have "\<forall>s \<in> set (states st). stamped s"
    by (intro run_stamped [of STEPS evs "init P G STEPS" st]) simp_all
  then show "\<forall>s \<in> set (states st). (doneAt s \<noteq> None) = (status s = Done)"
    by (simp add: stamped_def)
next
  assume "STEPS \<noteq> []"
  then have "0 \<le> currentIndex (init P G STEPS)"
    "currentIndex (init P G STEPS) < int (length STEPS)"
    by (simp_all add: init_def)
  from run_total [OF this, of evs] show "\<exists>st'. run STEPS evs (init P G STEPS) = Inr st'"
    by blast
next
  show "\<forall>s \<in> set (setStatus now i v sts).
         state_id s = i \<longrightarrow> status s = v \<and> doneAt s = (if v = Done then Some now else None)"
    by (rule setStatus_stamp)
next
  assume "\<forall>s \<in> set sts. stamped s"
  then show "\<forall>s \<in> set (setStatus now i v sts). stamped s"
    by (rule setStatus_stamped)
next
  show "\<forall>s \<in> set (states (resetAll STEPS st0)). status s = Todo \<and> doneAt s = None"
    by (simp add: resetAll_def)
qed

text \<open>
  A session on the excerpt that starts from a stored list with one completed step and
  one stale record, and marks, skips, searches, goes back and un-checks.
\<close>

theorem stamped_invariant_witness:
  "run excerpt
     [MarkDone (CBool True) ''2026-01-01T00:01:00.000Z'', Skip ''2026-01-01T00:02:00.000Z'',
      SetSearch ''report'', MarkDone (CBool True) ''2026-01-01T00:03:00.000Z'', Back,
      MarkDone (CString []) ''2026-01-01T00:04:00.000Z'']
     (init (\<lambda>_. Inr [\<lparr>state_id = ''reporting'', status = Done,
                          doneAt = Some ''2025-12-31T23:00:00.000Z''\<rparr>,
                        \<lparr>state_id = ''retired-step'', status = Skipped, doneAt = None\<rparr>])
        (Inr (Some ''[stored]'')) excerpt)
   = Inr \<lparr>search = ''report'', meta = default_meta,
          states = [\<lparr>state_id = ''declare-incident'', status = Done,
                      doneAt = Some ''2026-01-01T00:01:00.000Z''\<rparr>,
                    \<lparr>state_id = ''change-freeze'', status = Skipped, doneAt = None\<rparr>,
                    \<lparr>state_id = ''reporting'', status = Todo, doneAt = None\<rparr>],
          currentIndex = 2\<rparr>
   \<and> list_all (\<lambda>s. (doneAt s \<noteq> None) = (status s = Done))
         [\<lparr>state_id = ''declare-incident'', status = Done,
            doneAt = Some ''2026-01-01T00:01:00.000Z''\<rparr>,
          \<lparr>state_id = ''change-freeze'', status = Skipped, doneAt = None\<rparr>,
          \<lparr>state_id = ''reporting'', status = Todo, doneAt = None\<rparr>]"
proof -
  let ?P = "\<lambda>_::string. (Inr [\<lparr>state_id = ''reporting'', status = Done,
                          doneAt = Some ''2025-12-31T23:00:00.000Z''\<rparr>,
                        \<lparr>state_id = ''retired-step'', status = Skipped, doneAt = None\<rparr>]
              :: error + StepState list)"
  let ?G = "Inr (Some ''[stored]'') :: error + string option"
  let ?evs = "[MarkDone (CBool True) ''2026-01-01T00:01:00.000Z'', Skip ''2026-01-01T00:02:00.000Z'',
      SetSearch ''report'', MarkDone (CBool True) ''2026-01-01T00:03:00.000Z'', Back,
      MarkDone (CString []) ''2026-01-01T00:04:00.000Z'']"
  let ?X = "\<lparr>search = ''report'', meta = default_meta,
          states = [\<lparr>state_id = ''declare-incident'', status = Done,
                      doneAt = Some ''2026-01-01T00:01:00.000Z''\<rparr>,
                    \<lparr>state_id = ''change-freeze'', status = Skipped, doneAt = None\<rparr>,
                    \<lparr>state_id = ''reporting'', status = Todo, doneAt = None\<rparr>],
          currentIndex = 2\<rparr>"
  have ev: "run excerpt ?evs (init ?P ?G excerpt) = Inr ?X"
    by code_simp
  have wf: "\<forall>raw parsed. ?G = Inr (Some raw) \<and> ?P raw = Inr parsed \<longrightarrow>
              (\<forall>s \<in> set parsed. stamped s)"
    by (auto simp: stamped_def)
  from stamped_invariant [of ?G ?P excerpt ?evs ?X, THEN conjunct1, THEN mp, OF conjI, OF wf ev]
  have "\<forall>s \<in> set (states ?X). (doneAt s \<noteq> None) = (status s = Done)" .
  then have "list_all (\<lambda>s. (doneAt s \<noteq> None) = (status s = Done))
         [\<lparr>state_id = ''declare-incident'', status = Done,
            doneAt = Some ''2026-01-01T00:01:00.000Z''\<rparr>,
          \<lparr>state_id = ''change-freeze'', status = Skipped, doneAt = None\<rparr>,
          \<lparr>state_id = ''reporting'', status = Todo, doneAt = None\<rparr>]"
    by (simp only: app_state.simps list_all_iff)
  with ev show ?thesis by (rule conjI)
qed

text \<open>
  The claim as written fails at loading: a stored list with a time on a pending record
  and a completed record without time is returned as it is.
\<close>

theorem loadState_unstamped_counterexample:
  "loadState (\<lambda>_. Inr [\<lparr>state_id = ''declare-incident'', status = Todo,
                          doneAt = Some ''2025-12-31T23:00:00.000Z''\<rparr>,
                        \<lparr>state_id = ''reporting'', status = Done, doneAt = None\<rparr>])
     (Inr (Some ''[stored]'')) (map step_id excerpt)
   = [\<lparr>state_id = ''declare-incident'', status = Todo,
       doneAt = Some ''2025-12-31T23:00:00.000Z''\<rparr>,
      \<lparr>state_id = ''change-freeze'', status = Todo, doneAt = None\<rparr>,
      \<lparr>state_id = ''reporting'', status = Done, doneAt = None\<rparr>]
   \<and> \<not> stamped \<lparr>state_id = ''declare-incident'', status = Todo,
                  doneAt = Some ''2025-12-31T23:00:00.000Z''\<rparr>
   \<and> \<not> stamped \<lparr>state_id = ''reporting'', status = Done, doneAt = None\<rparr>"
proof -
  have 1: "loadState (\<lambda>_. Inr [\<lparr>state_id = ''declare-incident'', status = Todo,
                          doneAt = Some ''2025-12-31T23:00:00.000Z''\<rparr>,
                        \<lparr>state_id = ''reporting'', status = Done, doneAt = None\<rparr>])
     (Inr (Some ''[stored]'')) (map step_id excerpt)
   = [\<lparr>state_id = ''declare-incident'', status = Todo,
       doneAt = Some ''2025-12-31T23:00:00.000Z''\<rparr>,
      \<lparr>state_id = ''change-freeze'', status = Todo, doneAt = None\<rparr>,
      \<lparr>state_id = ''reporting'', status = Done, doneAt = None\<rparr>]"
    by code_simp
  have 2: "\<not> stamped \<lparr>state_id = ''declare-incident'', status = Todo,
                  doneAt = Some ''2025-12-31T23:00:00.000Z''\<rparr>"
    by (simp add: stamped_def)
  have 3: "\<not> stamped \<lparr>state_id = ''reporting'', status = Done, doneAt = None\<rparr>"
    by (simp add: stamped_def)
  from 1 2 3 show ?thesis by blast
qed

section \<open>The page: a handler followed by the effect\<close>

lemma reconcile_eq:
  "reconcile STEPS st =
     (if \<exists>s. current STEPS st = Some s \<and> visible (filtered STEPS (search st)) s then st
      else if filtered STEPS (search st) \<noteq> []
           then st\<lparr>currentIndex := snd (hd (filtered STEPS (search st)))\<rparr>
           else st)"
  unfolding reconcile_visible_iff [symmetric]
  by (simp add: reconcile_def Let_def)

lemma visible_Nil [simp]: "visible [] s = False"
  by (simp add: visible_def)

lemma reconcile_after:
  assumes "0 \<le> currentIndex h" "currentIndex h < int (length STEPS)"
  shows "(filtered STEPS (search h) = []
            \<or> visible (filtered STEPS (search h)) (STEPS ! nat (currentIndex h))
          \<longrightarrow> reconcile STEPS h = h)
       \<and> (filtered STEPS (search h) \<noteq> []
            \<and> \<not> visible (filtered STEPS (search h)) (STEPS ! nat (currentIndex h))
          \<longrightarrow> reconcile STEPS h = h\<lparr>currentIndex := snd (hd (filtered STEPS (search h)))\<rparr>)"
proof -
  have c: "current STEPS h = Some (STEPS ! nat (currentIndex h))"
    using assms by (rule current_in_range)
  show ?thesis
    by (cases "filtered STEPS (search h) = []") (simp_all add: reconcile_eq c)
qed

lemma visible_unfiltered:
  assumes "\<forall>c \<in> set q. isWhiteSpace c" "k < length STEPS"
  shows "visible (filtered STEPS q) (STEPS ! k)"
proof -
  from assms(1) have "toLowerCase (trim q) = []" by (simp add: trim_Nil_iff)
  then have f: "filtered STEPS q = with_idx STEPS" by (simp add: filtered_def)
  have "k < length (with_idx STEPS)"
    using assms(2) by (simp add: with_idx_def)
  then have "with_idx STEPS ! k \<in> set (with_idx STEPS)"
    by (rule nth_mem)
  then have "(STEPS ! k, int k) \<in> set (with_idx STEPS)"
    using assms(2) by (simp only: with_idx_nth)
  then show ?thesis
    unfolding f visible_def by (intro bexI [of _ "(STEPS ! k, int k)"]) simp_all
qed

lemma cursor_after_effect:
  assumes "0 \<le> currentIndex h" "currentIndex h < int (length STEPS)"
  shows "(filtered STEPS (search h) = []
            \<or> visible (filtered STEPS (search h)) (STEPS ! nat (currentIndex h))
          \<longrightarrow> currentIndex (reconcile STEPS h) = currentIndex h)
       \<and> ((\<forall>c \<in> set (search h). isWhiteSpace c)
          \<longrightarrow> currentIndex (reconcile STEPS h) = currentIndex h)
       \<and> (filtered STEPS (search h) \<noteq> []
            \<and> \<not> visible (filtered STEPS (search h)) (STEPS ! nat (currentIndex h))
          \<longrightarrow> currentIndex (reconcile STEPS h) = snd (hd (filtered STEPS (search h))))"
proof (intro conjI impI)
  assume "filtered STEPS (search h) = []
            \<or> visible (filtered STEPS (search h)) (STEPS ! nat (currentIndex h))"
  with reconcile_after [OF assms] show "currentIndex (reconcile STEPS h) = currentIndex h"
    by simp
next
  assume "\<forall>c \<in> set (search h). isWhiteSpace c"
  then have "visible (filtered STEPS (search h)) (STEPS ! nat (currentIndex h))"
    using assms by (intro visible_unfiltered) simp_all
  with reconcile_after [OF assms] show "currentIndex (reconcile STEPS h) = currentIndex h"
    by simp
next
  assume "filtered STEPS (search h) \<noteq> []
            \<and> \<not> visible (filtered STEPS (search h)) (STEPS ! nat (currentIndex h))"
  with reconcile_after [OF assms]
  have "reconcile STEPS h = h\<lparr>currentIndex := snd (hd (filtered STEPS (search h)))\<rparr>"
    by blast
  then show "currentIndex (reconcile STEPS h) = snd (hd (filtered STEPS (search h)))"
    by simp
qed





text \<open>
  C5 (as amended). On the page Skip runs \<open>onSkip\<close> and then the effect. With the cursor
  on a catalog step and the status list aligned with a catalog of distinct identities:
  the record of the step at the cursor becomes \<open>Skipped\<close> without \<open>doneAt\<close>, the other
  records stay, and the handler targets the next index, or the cursor itself on the
  last step, whatever the statuses are. The cursor ends on the target when the target
  step is visible under the search text, when no step is visible, and always when the
  search text is empty or white space; when the target step is hidden and some step is
  visible, the effect moves the cursor to the first visible step instead.
\<close>

theorem skip_page:
  assumes cur: "0 \<le> currentIndex st" "currentIndex st < int (length STEPS)"
    and ids: "map state_id (states st) = map step_id STEPS"
    and dist: "distinct (map step_id STEPS)"
  shows "\<exists>h st'. onSkip STEPS now st = Inr h
      \<and> dispatch STEPS (Skip now) st = Inr st'
      \<and> search st' = search st \<and> meta st' = meta st
      \<and> states st' = (states st)[nat (currentIndex st) :=
            \<lparr>state_id = step_id (STEPS ! nat (currentIndex st)),
             status = Skipped, doneAt = None\<rparr>]
      \<and> currentIndex h = min (int (length STEPS) - 1) (currentIndex st + 1)
      \<and> (currentIndex st + 1 < int (length STEPS) \<longrightarrow> currentIndex h = currentIndex st + 1)
      \<and> (currentIndex st + 1 = int (length STEPS) \<longrightarrow> currentIndex h = currentIndex st)
      \<and> (filtered STEPS (search st) = []
            \<or> visible (filtered STEPS (search st)) (STEPS ! nat (currentIndex h))
          \<longrightarrow> currentIndex st' = currentIndex h)
      \<and> ((\<forall>c \<in> set (search st). isWhiteSpace c) \<longrightarrow> currentIndex st' = currentIndex h)
      \<and> (filtered STEPS (search st) \<noteq> []
            \<and> \<not> visible (filtered STEPS (search st)) (STEPS ! nat (currentIndex h))
          \<longrightarrow> currentIndex st' = snd (hd (filtered STEPS (search st))))"
proof -
  from onSkip_handler [OF cur ids dist, of now]
  obtain h where h: "onSkip STEPS now st = Inr h"
    and sm: "search h = search st" "meta h = meta st"
    and upd: "states h = (states st)[nat (currentIndex st) :=
            \<lparr>state_id = step_id (STEPS ! nat (currentIndex st)),
             status = Skipped, doneAt = None\<rparr>]"
    and tgt: "currentIndex h = min (int (length STEPS) - 1) (currentIndex st + 1)"
    and nxt: "currentIndex st + 1 < int (length STEPS) \<longrightarrow> currentIndex h = currentIndex st + 1"
    and lst: "currentIndex st + 1 = int (length STEPS) \<longrightarrow> currentIndex h = currentIndex st"
    by blast
  have r0: "0 \<le> currentIndex h" and r1: "currentIndex h < int (length STEPS)"
    using cur tgt by linarith+
  define st' where "st' = reconcile STEPS h"
  have d: "dispatch STEPS (Skip now) st = Inr st'"
    by (simp add: dispatch_def h st'_def)
  have keep: "search st' = search st" "meta st' = meta st" "states st' = states h"
    by (simp_all add: st'_def sm)
  note eff = cursor_after_effect [OF r0 r1, unfolded sm, folded st'_def]
  show ?thesis
  proof (rule exI [of _ h], rule exI [of _ st'], intro conjI)
    show "onSkip STEPS now st = Inr h" by (rule h)
    show "dispatch STEPS (Skip now) st = Inr st'" by (rule d)
    show "search st' = search st" by (rule keep)
    show "meta st' = meta st" by (rule keep)
    show "states st' = (states st)[nat (currentIndex st) :=
            \<lparr>state_id = step_id (STEPS ! nat (currentIndex st)),
             status = Skipped, doneAt = None\<rparr>]"
      by (simp only: keep upd)
    show "currentIndex h = min (int (length STEPS) - 1) (currentIndex st + 1)" by (rule tgt)
    show "currentIndex st + 1 < int (length STEPS) \<longrightarrow> currentIndex h = currentIndex st + 1"
      by (rule nxt)
    show "currentIndex st + 1 = int (length STEPS) \<longrightarrow> currentIndex h = currentIndex st"
      by (rule lst)
    show "filtered STEPS (search st) = []
            \<or> visible (filtered STEPS (search st)) (STEPS ! nat (currentIndex h))
          \<longrightarrow> currentIndex st' = currentIndex h"
      using eff by blast
    show "(\<forall>c \<in> set (search st). isWhiteSpace c) \<longrightarrow> currentIndex st' = currentIndex h"
      using eff by blast
    show "filtered STEPS (search st) \<noteq> []
            \<and> \<not> visible (filtered STEPS (search st)) (STEPS ! nat (currentIndex h))
          \<longrightarrow> currentIndex st' = snd (hd (filtered STEPS (search st)))"
      using eff by blast
  qed
qed

text \<open>
  With no search text, Skip on the first step moves to the second, although the second
  is completed.
\<close>

theorem skip_page_witness:
  "\<exists>st'. dispatch excerpt (Skip ''2026-01-01T00:00:00.000Z'')
           \<lparr>search = [], meta = default_meta,
            states = [\<lparr>state_id = ''declare-incident'', status = Todo, doneAt = None\<rparr>,
                      \<lparr>state_id = ''change-freeze'', status = Done, doneAt = Some ''t0''\<rparr>,
                      \<lparr>state_id = ''reporting'', status = Todo, doneAt = None\<rparr>],
            currentIndex = 0\<rparr> = Inr st'
         \<and> currentIndex st' = 1
         \<and> states st' =
             [\<lparr>state_id = ''declare-incident'', status = Skipped, doneAt = None\<rparr>,
              \<lparr>state_id = ''change-freeze'', status = Done, doneAt = Some ''t0''\<rparr>,
              \<lparr>state_id = ''reporting'', status = Todo, doneAt = None\<rparr>]"
proof -
  let ?st = "\<lparr>search = [], meta = default_meta,
            states = [\<lparr>state_id = ''declare-incident'', status = Todo, doneAt = None\<rparr>,
                      \<lparr>state_id = ''change-freeze'', status = Done, doneAt = Some ''t0''\<rparr>,
                      \<lparr>state_id = ''reporting'', status = Todo, doneAt = None\<rparr>],
            currentIndex = 0\<rparr>"
  have 1: "0 \<le> currentIndex ?st" by simp
  have 2: "currentIndex ?st < int (length excerpt)" by (simp add: excerpt_def)
  have 3: "map state_id (states ?st) = map step_id excerpt"
    by (simp add: excerpt_def declare_incident_def change_freeze_def reporting_def)
  have 4: "distinct (map step_id excerpt)"
    by (simp add: excerpt_def declare_incident_def change_freeze_def reporting_def)
  from skip_page [OF 1 2 3 4, of "''2026-01-01T00:00:00.000Z''"]
  obtain h :: app_state and st' :: app_state where
    st': "dispatch excerpt (Skip ''2026-01-01T00:00:00.000Z'') ?st = Inr st'"
    and upd: "states st' = (states ?st)[nat (currentIndex ?st) :=
            \<lparr>state_id = step_id (excerpt ! nat (currentIndex ?st)),
             status = Skipped, doneAt = None\<rparr>]"
    and adv: "currentIndex ?st + 1 < int (length excerpt)
              \<longrightarrow> currentIndex h = currentIndex ?st + 1"
    and plain: "(\<forall>c \<in> set (search ?st). isWhiteSpace c) \<longrightarrow> currentIndex st' = currentIndex h"
    by blast
  have "states st' =
             [\<lparr>state_id = ''declare-incident'', status = Skipped, doneAt = None\<rparr>,
              \<lparr>state_id = ''change-freeze'', status = Done, doneAt = Some ''t0''\<rparr>,
              \<lparr>state_id = ''reporting'', status = Todo, doneAt = None\<rparr>]"
    using upd by (simp add: excerpt_def declare_incident_def)
  moreover have "currentIndex h = 1"
    using adv by (simp add: excerpt_def)
  with plain have "currentIndex st' = 1" by simp
  ultimately show ?thesis using st' by blast
qed

text \<open>
  The claim as written fails under a search text that hides the next step. In the
  session that has gone to the second step and searched \<open>preparation\<close>, Skip targets the
  third step, which is hidden, and the effect puts the cursor on the first step: the
  cursor ends one position back, not one position further.
\<close>

theorem skip_hidden_counterexample:
  "run excerpt [Next, SetSearch ''preparation'']
     (init (\<lambda>_. Inl SyntaxError) (Inr None) excerpt)
   = Inr \<lparr>search = ''preparation'', meta = default_meta,
          states = [\<lparr>state_id = ''declare-incident'', status = Todo, doneAt = None\<rparr>,
                    \<lparr>state_id = ''change-freeze'', status = Todo, doneAt = None\<rparr>,
                    \<lparr>state_id = ''reporting'', status = Todo, doneAt = None\<rparr>],
          currentIndex = 1\<rparr>
   \<and> dispatch excerpt (Skip ''2026-01-01T00:00:00.000Z'')
       \<lparr>search = ''preparation'', meta = default_meta,
        states = [\<lparr>state_id = ''declare-incident'', status = Todo, doneAt = None\<rparr>,
                  \<lparr>state_id = ''change-freeze'', status = Todo, doneAt = None\<rparr>,
                  \<lparr>state_id = ''reporting'', status = Todo, doneAt = None\<rparr>],
        currentIndex = 1\<rparr>
     = Inr \<lparr>search = ''preparation'', meta = default_meta,
            states = [\<lparr>state_id = ''declare-incident'', status = Todo, doneAt = None\<rparr>,
                      \<lparr>state_id = ''change-freeze'', status = Skipped, doneAt = None\<rparr>,
                      \<lparr>state_id = ''reporting'', status = Todo, doneAt = None\<rparr>],
            currentIndex = 0\<rparr>"
proof -
  have 1: "run excerpt [Next, SetSearch ''preparation'']
     (init (\<lambda>_. Inl SyntaxError) (Inr None) excerpt)
   = Inr \<lparr>search = ''preparation'', meta = default_meta,
          states = [\<lparr>state_id = ''declare-incident'', status = Todo, doneAt = None\<rparr>,
                    \<lparr>state_id = ''change-freeze'', status = Todo, doneAt = None\<rparr>,
                    \<lparr>state_id = ''reporting'', status = Todo, doneAt = None\<rparr>],
          currentIndex = 1\<rparr>"
    by code_simp
  have 2: "dispatch excerpt (Skip ''2026-01-01T00:00:00.000Z'')
       \<lparr>search = ''preparation'', meta = default_meta,
        states = [\<lparr>state_id = ''declare-incident'', status = Todo, doneAt = None\<rparr>,
                  \<lparr>state_id = ''change-freeze'', status = Todo, doneAt = None\<rparr>,
                  \<lparr>state_id = ''reporting'', status = Todo, doneAt = None\<rparr>],
        currentIndex = 1\<rparr>
     = Inr \<lparr>search = ''preparation'', meta = default_meta,
            states = [\<lparr>state_id = ''declare-incident'', status = Todo, doneAt = None\<rparr>,
                      \<lparr>state_id = ''change-freeze'', status = Skipped, doneAt = None\<rparr>,
                      \<lparr>state_id = ''reporting'', status = Todo, doneAt = None\<rparr>],
            currentIndex = 0\<rparr>"
    by code_simp
  from 1 2 show ?thesis by (rule conjI)
qed

lemma filtered_Nil [simp]: "filtered [] q = []"
  by (simp add: filtered_def with_idx_def Let_def)

lemma resetAll_reconcile:
  "resetAll STEPS (reconcile STEPS (resetAll STEPS st)) = resetAll STEPS st"
  by (simp add: reconcile_eq) (simp add: resetAll_def)

text \<open>
  C10 (as amended). On the page Reset runs \<open>resetAll\<close> and then the effect. The status
  list becomes one pending record without \<open>doneAt\<close> per catalog step, in catalog order,
  the search text and the metadata stay, and the handler sets the cursor to index 0.
  The cursor ends on index 0 when the first step is visible under the search text, when
  no step is visible, and always when the search text is empty or white space; when
  the first step is hidden and some step is visible, the effect moves the cursor to
  the first visible step instead. A second reset changes nothing.
\<close>

theorem reset_page:
  "\<exists>st'. dispatch STEPS Reset st = Inr st'
      \<and> states st' = map (\<lambda>s. \<lparr>state_id = step_id s, status = Todo, doneAt = None\<rparr>) STEPS
      \<and> map state_id (states st') = map step_id STEPS
      \<and> (\<forall>s \<in> set (states st'). status s = Todo \<and> doneAt s = None)
      \<and> search st' = search st \<and> meta st' = meta st
      \<and> currentIndex (resetAll STEPS st) = 0
      \<and> (filtered STEPS (search st) = []
            \<or> visible (filtered STEPS (search st)) (STEPS ! 0)
          \<longrightarrow> currentIndex st' = 0)
      \<and> ((\<forall>c \<in> set (search st). isWhiteSpace c) \<longrightarrow> currentIndex st' = 0)
      \<and> (filtered STEPS (search st) \<noteq> []
            \<and> \<not> visible (filtered STEPS (search st)) (STEPS ! 0)
          \<longrightarrow> currentIndex st' = snd (hd (filtered STEPS (search st))))
      \<and> dispatch STEPS Reset st' = Inr st'"
proof -
  define h where "h = resetAll STEPS st"
  define st' where "st' = reconcile STEPS h"
  have hs: "states h = map (\<lambda>s. \<lparr>state_id = step_id s, status = Todo, doneAt = None\<rparr>) STEPS"
    "search h = search st" "meta h = meta st" "currentIndex h = 0"
    by (simp_all add: h_def resetAll_def)
  have d: "dispatch STEPS Reset st = Inr st'"
    by (simp add: dispatch_def st'_def h_def)
  have keep: "search st' = search st" "meta st' = meta st" "states st' = states h"
    by (simp_all add: st'_def hs)
  have eff: "(filtered STEPS (search st) = []
            \<or> visible (filtered STEPS (search st)) (STEPS ! 0)
          \<longrightarrow> currentIndex st' = 0)
      \<and> ((\<forall>c \<in> set (search st). isWhiteSpace c) \<longrightarrow> currentIndex st' = 0)
      \<and> (filtered STEPS (search st) \<noteq> []
            \<and> \<not> visible (filtered STEPS (search st)) (STEPS ! 0)
          \<longrightarrow> currentIndex st' = snd (hd (filtered STEPS (search st))))"
  proof (cases "STEPS = []")
    case True
    then have "reconcile STEPS h = h"
      by (simp add: reconcile_eq)
    with True show ?thesis by (simp add: st'_def hs)
  next
    case False
    then have r0: "0 \<le> currentIndex h" and r1: "currentIndex h < int (length STEPS)"
      by (simp_all add: hs)
    from cursor_after_effect [OF r0 r1] show ?thesis
      by (simp add: hs st'_def)
  qed
  have again: "dispatch STEPS Reset st' = Inr st'"
    using resetAll_reconcile [of STEPS st]
    by (simp add: dispatch_def st'_def h_def)
  show ?thesis
  proof (rule exI [of _ st'], intro conjI)
    show "dispatch STEPS Reset st = Inr st'" by (rule d)
    show "states st' = map (\<lambda>s. \<lparr>state_id = step_id s, status = Todo, doneAt = None\<rparr>) STEPS"
      by (simp only: keep hs)
    then show "map state_id (states st') = map step_id STEPS"
      by (simp add: comp_def)
    show "\<forall>s \<in> set (states st'). status s = Todo \<and> doneAt s = None"
      by (auto simp: keep hs)
    show "search st' = search st" by (rule keep)
    show "meta st' = meta st" by (rule keep)
    show "currentIndex (resetAll STEPS st) = 0" by (simp add: resetAll_def)
    show "filtered STEPS (search st) = []
            \<or> visible (filtered STEPS (search st)) (STEPS ! 0)
          \<longrightarrow> currentIndex st' = 0"
      using eff by blast
    show "(\<forall>c \<in> set (search st). isWhiteSpace c) \<longrightarrow> currentIndex st' = 0"
      using eff by blast
    show "filtered STEPS (search st) \<noteq> []
            \<and> \<not> visible (filtered STEPS (search st)) (STEPS ! 0)
          \<longrightarrow> currentIndex st' = snd (hd (filtered STEPS (search st)))"
      using eff by blast
    show "dispatch STEPS Reset st' = Inr st'" by (rule again)
  qed
qed

text \<open>
  With no search text, a reset in the middle of a session, with the cursor on the last
  step, ends on index 0.
\<close>

theorem reset_page_witness:
  "dispatch excerpt Reset
     \<lparr>search = [], meta = default_meta,
      states = [\<lparr>state_id = ''declare-incident'', status = Done, doneAt = Some ''t0''\<rparr>,
                \<lparr>state_id = ''change-freeze'', status = Skipped, doneAt = None\<rparr>,
                \<lparr>state_id = ''reporting'', status = Todo, doneAt = None\<rparr>],
      currentIndex = 2\<rparr>
   = Inr \<lparr>search = [], meta = default_meta,
          states = [\<lparr>state_id = ''declare-incident'', status = Todo, doneAt = None\<rparr>,
                    \<lparr>state_id = ''change-freeze'', status = Todo, doneAt = None\<rparr>,
                    \<lparr>state_id = ''reporting'', status = Todo, doneAt = None\<rparr>],
          currentIndex = 0\<rparr>"
proof -
  let ?st = "\<lparr>search = [], meta = default_meta,
      states = [\<lparr>state_id = ''declare-incident'', status = Done, doneAt = Some ''t0''\<rparr>,
                \<lparr>state_id = ''change-freeze'', status = Skipped, doneAt = None\<rparr>,
                \<lparr>state_id = ''reporting'', status = Todo, doneAt = None\<rparr>],
      currentIndex = 2\<rparr>"
  from reset_page [of excerpt ?st]
  obtain st' :: app_state where d: "dispatch excerpt Reset ?st = Inr st'"
    and sts: "states st' =
        map (\<lambda>s. \<lparr>state_id = step_id s, status = Todo, doneAt = None\<rparr>) excerpt"
    and sm: "search st' = search ?st" "meta st' = meta ?st"
    and plain: "(\<forall>c \<in> set (search ?st). isWhiteSpace c) \<longrightarrow> currentIndex st' = 0"
    by blast
  have "states st' = [\<lparr>state_id = ''declare-incident'', status = Todo, doneAt = None\<rparr>,
                    \<lparr>state_id = ''change-freeze'', status = Todo, doneAt = None\<rparr>,
                    \<lparr>state_id = ''reporting'', status = Todo, doneAt = None\<rparr>]"
    using sts by (simp add: excerpt_def declare_incident_def change_freeze_def reporting_def)
  moreover have "currentIndex st' = 0" using plain by simp
  moreover have "search st' = []" "meta st' = default_meta" using sm by simp_all
  ultimately have "st' = \<lparr>search = [], meta = default_meta,
          states = [\<lparr>state_id = ''declare-incident'', status = Todo, doneAt = None\<rparr>,
                    \<lparr>state_id = ''change-freeze'', status = Todo, doneAt = None\<rparr>,
                    \<lparr>state_id = ''reporting'', status = Todo, doneAt = None\<rparr>],
          currentIndex = 0\<rparr>"
    by (intro app_state.equality) simp_all
  with d show ?thesis by simp
qed

text \<open>
  The claim as written fails under a search text that hides the first step. After the
  search \<open>report\<close>, which shows the last step only, the cursor is on the last step;
  Reset sets the cursor to index 0 and the effect moves it back to the last step.
\<close>

theorem reset_hidden_counterexample:
  "run excerpt [SetSearch ''report'']
     (init (\<lambda>_. Inl SyntaxError) (Inr None) excerpt)
   = Inr \<lparr>search = ''report'', meta = default_meta,
          states = [\<lparr>state_id = ''declare-incident'', status = Todo, doneAt = None\<rparr>,
                    \<lparr>state_id = ''change-freeze'', status = Todo, doneAt = None\<rparr>,
                    \<lparr>state_id = ''reporting'', status = Todo, doneAt = None\<rparr>],
          currentIndex = 2\<rparr>
   \<and> dispatch excerpt Reset
       \<lparr>search = ''report'', meta = default_meta,
        states = [\<lparr>state_id = ''declare-incident'', status = Todo, doneAt = None\<rparr>,
                  \<lparr>state_id = ''change-freeze'', status = Todo, doneAt = None\<rparr>,
                  \<lparr>state_id = ''reporting'', status = Todo, doneAt = None\<rparr>],
        currentIndex = 2\<rparr>
     = Inr \<lparr>search = ''report'', meta = default_meta,
            states = [\<lparr>state_id = ''declare-incident'', status = Todo, doneAt = None\<rparr>,
                      \<lparr>state_id = ''change-freeze'', status = Todo, doneAt = None\<rparr>,
                      \<lparr>state_id = ''reporting'', status = Todo, doneAt = None\<rparr>],
            currentIndex = 2\<rparr>"
proof -
  have 1: "run excerpt [SetSearch ''report'']
     (init (\<lambda>_. Inl SyntaxError) (Inr None) excerpt)
   = Inr \<lparr>search = ''report'', meta = default_meta,
          states = [\<lparr>state_id = ''declare-incident'', status = Todo, doneAt = None\<rparr>,
                    \<lparr>state_id = ''change-freeze'', status = Todo, doneAt = None\<rparr>,
                    \<lparr>state_id = ''reporting'', status = Todo, doneAt = None\<rparr>],
          currentIndex = 2\<rparr>"
    by code_simp
  have 2: "dispatch excerpt Reset
       \<lparr>search = ''report'', meta = default_meta,
        states = [\<lparr>state_id = ''declare-incident'', status = Todo, doneAt = None\<rparr>,
                  \<lparr>state_id = ''change-freeze'', status = Todo, doneAt = None\<rparr>,
                  \<lparr>state_id = ''reporting'', status = Todo, doneAt = None\<rparr>],
        currentIndex = 2\<rparr>
     = Inr \<lparr>search = ''report'', meta = default_meta,
            states = [\<lparr>state_id = ''declare-incident'', status = Todo, doneAt = None\<rparr>,
                      \<lparr>state_id = ''change-freeze'', status = Todo, doneAt = None\<rparr>,
                      \<lparr>state_id = ''reporting'', status = Todo, doneAt = None\<rparr>],
            currentIndex = 2\<rparr>"
    by code_simp
  from 1 2 show ?thesis by (rule conjI)
qed

end
